theory Spec2Isabelle
  imports Main "HOL-Library.While_Combinator" "HOL-Library.Sublist"
begin

section \<open>Data model\<close>

text \<open>
  The analyzer of \<^verbatim>\<open>graphistryChallenge.py\<close> reads two tables and never checks
  what their cells hold. A cell is modelled as a Python string or as \<^verbatim>\<open>None\<close>
  (an empty cell of an object column); both are hashable, compared by value, and
  formatted by an f-string through \<^verbatim>\<open>str\<close>.
\<close>

datatype cell = Str string | NoneVal

fun str :: "cell \<Rightarrow> string" where
  "str (Str s) = s"
| "str NoneVal = ''None''"

text \<open>
  A row of a table maps a column name to the cell of that row (\<^verbatim>\<open>row['user_id']\<close>);
  a table is the list of its rows in order, as \<^verbatim>\<open>iterrows\<close> yields them.
\<close>

type_synonym row = "string \<rightharpoonup> cell"
type_synonym dataframe = "row list"

datatype error = KeyError string

record analyzer =
  access_logs :: dataframe
  activity_logs :: dataframe
  visited_users :: "cell set"
  visited_computers :: "cell set"
  event_log :: "string list"
  affected_users :: "cell set"
  affected_computers :: "cell set"
  user_to_computers :: "cell \<rightharpoonup> cell list"
  computer_activities :: "cell \<rightharpoonup> (cell \<times> cell) list"
  computer_to_users :: "cell \<rightharpoonup> cell list"

section \<open>Dictionary operations\<close>

text \<open>\<^verbatim>\<open>d.get(k, [])\<close>: the list stored at \<open>k\<close>, the empty list when there is none.\<close>

definition get :: "('k \<rightharpoonup> 'v list) \<Rightarrow> 'k \<Rightarrow> 'v list" where
  "get d k = (case d k of None \<Rightarrow> [] | Some xs \<Rightarrow> xs)"

text \<open>
  \<^verbatim>\<open>d[k].append(v)\<close> on a \<^verbatim>\<open>defaultdict(list)\<close>: a missing key starts from the
  empty list.
\<close>

definition append_at :: "('k \<rightharpoonup> 'v list) \<Rightarrow> 'k \<Rightarrow> 'v \<Rightarrow> ('k \<rightharpoonup> 'v list)" where
  "append_at d k v = d(k \<mapsto> get d k @ [v])"

section \<open>Index construction\<close>

text \<open>
  The first loop of \<^verbatim>\<open>__init__\<close>, over the activity table. \<^verbatim>\<open>row['user_id']\<close> is
  read before \<^verbatim>\<open>row['computer_id']\<close>; a column that the row does not have raises
  \<^verbatim>\<open>KeyError\<close> and leaves the constructor.
\<close>

fun index_activity_logs ::
  "dataframe \<Rightarrow> (cell \<rightharpoonup> cell list) \<Rightarrow> error + (cell \<rightharpoonup> cell list)" where
  "index_activity_logs [] u2c = Inr u2c"
| "index_activity_logs (r # rs) u2c =
     (case r ''user_id'' of
        None \<Rightarrow> Inl (KeyError ''user_id'')
      | Some u \<Rightarrow>
          (case r ''computer_id'' of
             None \<Rightarrow> Inl (KeyError ''computer_id'')
           | Some c \<Rightarrow> index_activity_logs rs (append_at u2c u c)))"

text \<open>
  The second loop of \<^verbatim>\<open>__init__\<close>, over the access table; the state is the pair
  of \<^verbatim>\<open>computer_activities\<close> and \<^verbatim>\<open>computer_to_users\<close>.
\<close>

fun index_access_logs ::
  "dataframe \<Rightarrow> (cell \<rightharpoonup> (cell \<times> cell) list) \<times> (cell \<rightharpoonup> cell list) \<Rightarrow>
   error + ((cell \<rightharpoonup> (cell \<times> cell) list) \<times> (cell \<rightharpoonup> cell list))" where
  "index_access_logs [] (ca, c2u) = Inr (ca, c2u)"
| "index_access_logs (r # rs) (ca, c2u) =
     (case r ''computer_id'' of
        None \<Rightarrow> Inl (KeyError ''computer_id'')
      | Some c \<Rightarrow>
          (case r ''affected_user_id'' of
             None \<Rightarrow> Inl (KeyError ''affected_user_id'')
           | Some u \<Rightarrow>
               (case r ''activity_type'' of
                  None \<Rightarrow> Inl (KeyError ''activity_type'')
                | Some a \<Rightarrow>
                    index_access_logs rs (append_at ca c (u, a), append_at c2u c u))))"

text \<open>
  \<^verbatim>\<open>SecurityAnalyzer.__init__(access_logs_df, activity_logs_df)\<close>: the constructor
  either raises or returns the analyzer with empty sets, an empty log and the
  three dictionaries.
\<close>

definition SecurityAnalyzer_init :: "dataframe \<Rightarrow> dataframe \<Rightarrow> error + analyzer" where
  "SecurityAnalyzer_init access_logs_df activity_logs_df =
     (case index_activity_logs activity_logs_df Map.empty of
        Inl e \<Rightarrow> Inl e
      | Inr u2c \<Rightarrow>
          (case index_access_logs access_logs_df (Map.empty, Map.empty) of
             Inl e \<Rightarrow> Inl e
           | Inr (ca, c2u) \<Rightarrow>
               Inr \<lparr> access_logs = access_logs_df,
                     activity_logs = activity_logs_df,
                     visited_users = {},
                     visited_computers = {},
                     event_log = [],
                     affected_users = {},
                     affected_computers = {},
                     user_to_computers = u2c,
                     computer_activities = ca,
                     computer_to_users = c2u \<rparr>))"

section \<open>Breadth-first analysis\<close>

text \<open>
  The loop over \<^verbatim>\<open>users_on_computer\<close> (source lines 52 to 57). The state is the
  analyzer together with the local queue.
\<close>

fun affect_users :: "cell \<Rightarrow> cell list \<Rightarrow> analyzer \<times> cell list \<Rightarrow> analyzer \<times> cell list" where
  "affect_users computer [] (s, queue) = (s, queue)"
| "affect_users computer (user # users) (s, queue) =
     (if user \<notin> visited_users s
      then affect_users computer users
             (s\<lparr> affected_users := insert user (affected_users s),
                 visited_users := insert user (visited_users s),
                 event_log := event_log s @
                   [''Computer '' @ str computer @ '' affected user '' @ str user] \<rparr>,
              queue @ [user])
      else affect_users computer users (s, queue))"

text \<open>The informational lines of one computer (source lines 48 and 49).\<close>

definition activity_line :: "cell \<times> cell \<Rightarrow> string" where
  "activity_line p =
     (case p of (affected_user_id, activity_type) \<Rightarrow>
        ''  - '' @ str activity_type @ '' by user '' @ str affected_user_id)"

text \<open>The loop over \<^verbatim>\<open>user_computers\<close> (source lines 41 to 57).\<close>

fun visit_computers :: "cell \<Rightarrow> cell list \<Rightarrow> analyzer \<times> cell list \<Rightarrow> analyzer \<times> cell list" where
  "visit_computers current_user [] (s, queue) = (s, queue)"
| "visit_computers current_user (computer # computers) (s, queue) =
     (if computer \<notin> visited_computers s
      then visit_computers current_user computers
             (affect_users computer (get (computer_to_users s) computer)
               (s\<lparr> visited_computers := insert computer (visited_computers s),
                   affected_computers := insert computer (affected_computers s),
                   event_log := event_log s @
                     [''User '' @ str current_user @ '' accessed computer '' @ str computer,
                      ''Activities on computer '' @ str computer @ '':''] @
                     map activity_line (get (computer_activities s) computer) \<rparr>,
                queue))
      else visit_computers current_user computers (s, queue))"

text \<open>
  The body of the \<^verbatim>\<open>while queue\<close> loop (source lines 36 to 57). The loop runs it
  on a non-empty queue only; on the empty queue the function is the identity.
\<close>

definition process_user :: "analyzer \<times> cell list \<Rightarrow> analyzer \<times> cell list" where
  "process_user x =
     (case x of
        (s, []) \<Rightarrow> (s, [])
      | (s, current_user # queue) \<Rightarrow>
          visit_computers current_user (get (user_to_computers s) current_user)
            (s\<lparr> event_log := event_log s @ [''Processing user: '' @ str current_user] \<rparr>,
             queue))"

definition queue_nonempty :: "analyzer \<times> cell list \<Rightarrow> bool" where
  "queue_nonempty x = (snd x \<noteq> [])"

text \<open>The state in which the loop is entered (source lines 29 to 33).\<close>

definition start_analysis :: "analyzer \<Rightarrow> cell \<Rightarrow> analyzer \<times> cell list" where
  "start_analysis s initial_user =
     (s\<lparr> visited_users := insert initial_user (visited_users s),
         affected_users := insert initial_user (affected_users s),
         event_log := event_log s @
           [''Analysis started with suspicious user '' @ str initial_user] \<rparr>,
      [initial_user])"

text \<open>
  \<^verbatim>\<open>analyze_compromise\<close>: the analyzer as the call leaves it, \<open>None\<close> when the loop
  never ends.
\<close>

definition analyze_compromise :: "analyzer \<Rightarrow> cell \<Rightarrow> analyzer option" where
  "analyze_compromise s initial_user =
     map_option fst (while_option queue_nonempty process_user (start_analysis s initial_user))"

section \<open>The scenario of the specification\<close>

text \<open>Activity records \<open>[(U1, C1)]\<close>.\<close>

definition scenario_activity_logs :: dataframe where
  "scenario_activity_logs =
     [[''user_id'' \<mapsto> Str ''U1'', ''computer_id'' \<mapsto> Str ''C1'']]"

text \<open>Access records \<open>[(C1, U2, login), (C1, U3, copy)]\<close>.\<close>

definition scenario_access_logs :: dataframe where
  "scenario_access_logs =
     [[''computer_id'' \<mapsto> Str ''C1'', ''affected_user_id'' \<mapsto> Str ''U2'',
       ''activity_type'' \<mapsto> Str ''login''],
      [''computer_id'' \<mapsto> Str ''C1'', ''affected_user_id'' \<mapsto> Str ''U3'',
       ''activity_type'' \<mapsto> Str ''copy'']]"

text \<open>
  The activity records of the scenario with \<open>(U2, C1)\<close> added: \<open>C1\<close> is visited
  from \<open>U1\<close> before \<open>U2\<close> is processed.
\<close>

definition revisit_activity_logs :: dataframe where
  "revisit_activity_logs =
     [[''user_id'' \<mapsto> Str ''U1'', ''computer_id'' \<mapsto> Str ''C1''],
      [''user_id'' \<mapsto> Str ''U2'', ''computer_id'' \<mapsto> Str ''C1'']]"

text \<open>
  An access table whose only row has all three columns and an empty
  \<open>activity_type\<close> cell.
\<close>

definition missing_cell_access_logs :: dataframe where
  "missing_cell_access_logs =
     [[''computer_id'' \<mapsto> Str ''C1'', ''affected_user_id'' \<mapsto> Str ''U2'',
       ''activity_type'' \<mapsto> NoneVal]]"

text \<open>An access table whose only row has no column \<open>activity_type\<close>.\<close>

definition missing_column_access_logs :: dataframe where
  "missing_column_access_logs =
     [[''computer_id'' \<mapsto> Str ''C1'', ''affected_user_id'' \<mapsto> Str ''U2'']]"

text \<open>
  Tables for two calls in a row: the run from \<open>U1\<close> visits \<open>C1\<close> and \<open>U2\<close>; a run
  from \<open>U4\<close> then reaches \<open>U2\<close> again through \<open>C2\<close>.
\<close>

definition rerun_access_logs :: dataframe where
  "rerun_access_logs =
     [[''computer_id'' \<mapsto> Str ''C1'', ''affected_user_id'' \<mapsto> Str ''U2'',
       ''activity_type'' \<mapsto> Str ''login''],
      [''computer_id'' \<mapsto> Str ''C2'', ''affected_user_id'' \<mapsto> Str ''U2'',
       ''activity_type'' \<mapsto> Str ''copy''],
      [''computer_id'' \<mapsto> Str ''C2'', ''affected_user_id'' \<mapsto> Str ''U5'',
       ''activity_type'' \<mapsto> Str ''login'']]"

definition rerun_activity_logs :: dataframe where
  "rerun_activity_logs =
     [[''user_id'' \<mapsto> Str ''U1'', ''computer_id'' \<mapsto> Str ''C1''],
      [''user_id'' \<mapsto> Str ''U4'', ''computer_id'' \<mapsto> Str ''C2'']]"

section \<open>Reachability in the user and computer graph\<close>

text \<open>
  The graph of the specification, stated without reference to the traversal: a node
  is a user or a computer; a user points to the computers that \<^verbatim>\<open>user_to_computers\<close>
  lists for them, a computer to the users that \<^verbatim>\<open>computer_to_users\<close> lists for it.
  \<^verbatim>\<open>computer_activities\<close> contributes no edge.
\<close>

datatype node = User cell | Computer cell

definition edges :: "analyzer \<Rightarrow> (node \<times> node) set" where
  "edges s =
     {(User u, Computer c) | u c. c \<in> set (get (user_to_computers s) u)} \<union>
     {(Computer c, User u) | c u. u \<in> set (get (computer_to_users s) c)}"

definition reachable :: "analyzer \<Rightarrow> cell \<Rightarrow> node set" where
  "reachable s seed = {n. (User seed, n) \<in> (edges s)\<^sup>*}"

section \<open>The dictionaries of the data model\<close>

text \<open>
  The three mappings as the data model of the specification describes them, stated
  on the tables and without the loops of the constructor: under a user, the
  \<open>computer_id\<close> cells of the activity rows of that user; under a computer, the
  \<open>affected_user_id\<close> cells, and the pairs of \<open>affected_user_id\<close> and \<open>activity_type\<close>
  cells, of the access rows of that computer; each in the order of the table, with
  repeated rows kept.
\<close>

definition spec_user_to_computers :: "dataframe \<Rightarrow> cell \<Rightarrow> cell list" where
  "spec_user_to_computers activity_records u =
     List.map_filter (\<lambda>r. if r ''user_id'' = Some u then r ''computer_id'' else None)
       activity_records"

definition spec_computer_to_users :: "dataframe \<Rightarrow> cell \<Rightarrow> cell list" where
  "spec_computer_to_users access_records c =
     List.map_filter (\<lambda>r. if r ''computer_id'' = Some c then r ''affected_user_id'' else None)
       access_records"

definition spec_computer_activities :: "dataframe \<Rightarrow> cell \<Rightarrow> (cell \<times> cell) list" where
  "spec_computer_activities access_records c =
     List.map_filter
       (\<lambda>r. if r ''computer_id'' = Some c
            then (case r ''affected_user_id'' of
                    None \<Rightarrow> None
                  | Some u \<Rightarrow>
                      (case r ''activity_type'' of None \<Rightarrow> None | Some a \<Rightarrow> Some (u, a)))
            else None)
       access_records"

text \<open>A key is present when at least one row names it.\<close>

definition spec_mapping :: "('k \<Rightarrow> 'v list) \<Rightarrow> ('k \<rightharpoonup> 'v list)" where
  "spec_mapping f = (\<lambda>k. if f k = [] then None else Some (f k))"

section \<open>Kinds of trace lines\<close>

text \<open>
  Each of the six f-strings of \<^verbatim>\<open>analyze_compromise\<close> starts with a literal of its
  own, so the kind of a line is read off its first characters.
\<close>

definition is_processing_line :: "string \<Rightarrow> bool" where
  "is_processing_line l = prefix ''Processing user: '' l"

definition is_access_line :: "string \<Rightarrow> bool" where
  "is_access_line l = prefix ''User '' l"

definition is_header_line :: "string \<Rightarrow> bool" where
  "is_header_line l = prefix ''Activities on computer '' l"

definition is_activity_line :: "string \<Rightarrow> bool" where
  "is_activity_line l = prefix ''  - '' l"

definition is_affected_line :: "string \<Rightarrow> bool" where
  "is_affected_line l = prefix ''Computer '' l"

text \<open>The number of lines of one kind in the event log.\<close>

definition tally :: "(string \<Rightarrow> bool) \<Rightarrow> analyzer \<Rightarrow> nat" where
  "tally p s = length (filter p (event_log s))"

section \<open>Relations between states of a run\<close>

text \<open>An analyzer as the constructor leaves it.\<close>

definition fresh_analyzer :: "analyzer \<Rightarrow> bool" where
  "fresh_analyzer s \<longleftrightarrow>
     visited_users s = {} \<and> visited_computers s = {} \<and> event_log s = [] \<and>
     affected_users s = {} \<and> affected_computers s = {}"

text \<open>
  \<open>frame s t\<close>: the analyzer \<open>t\<close> differs from \<open>s\<close> in the four sets and the event
  log at most; the two tables and the three dictionaries are those of \<open>s\<close>.
\<close>

definition frame :: "analyzer \<Rightarrow> analyzer \<Rightarrow> bool" where
  "frame s t \<longleftrightarrow>
     t = s\<lparr> visited_users := visited_users t,
            visited_computers := visited_computers t,
            event_log := event_log t,
            affected_users := affected_users t,
            affected_computers := affected_computers t \<rparr>"

text \<open>
  \<open>grows s t\<close>: each of the four sets of \<open>s\<close> is contained in that of \<open>t\<close>, and
  the two affected sets have not become smaller in size.
\<close>

definition grows :: "analyzer \<Rightarrow> analyzer \<Rightarrow> bool" where
  "grows s t \<longleftrightarrow>
     visited_users s \<subseteq> visited_users t \<and>
     visited_computers s \<subseteq> visited_computers t \<and>
     affected_users s \<subseteq> affected_users t \<and>
     affected_computers s \<subseteq> affected_computers t \<and>
     card (affected_users s) \<le> card (affected_users t) \<and>
     card (affected_computers s) \<le> card (affected_computers t)"

section \<open>Auxiliary notions of the proofs\<close>

text \<open>
  The users that the loop over \<^verbatim>\<open>users_on_computer\<close> marks: the first occurrence
  of every element that is not in \<open>V\<close>, in order.
\<close>

fun fresh :: "'a set \<Rightarrow> 'a list \<Rightarrow> 'a list" where
  "fresh V [] = []"
| "fresh V (x # xs) = (if x \<in> V then fresh V xs else x # fresh (insert x V) xs)"

text \<open>The line of source line 57.\<close>

definition affected_line :: "cell \<Rightarrow> cell \<Rightarrow> string" where
  "affected_line computer user = ''Computer '' @ str computer @ '' affected user '' @ str user"

text \<open>The lines that one newly visited computer adds to the log.\<close>

definition block_lines :: "analyzer \<Rightarrow> cell \<Rightarrow> cell \<Rightarrow> string list" where
  "block_lines s u c =
     [''User '' @ str u @ '' accessed computer '' @ str c,
      ''Activities on computer '' @ str c @ '':''] @
     map activity_line (get (computer_activities s) c) @
     map (affected_line c) (fresh (visited_users s) (get (computer_to_users s) c))"

text \<open>
  \<open>expands s nu nc t\<close>: from \<open>s\<close> to \<open>t\<close> the users \<open>nu\<close> and the computers \<open>nc\<close>
  were marked, each once and none of them marked before; every new user is listed
  for a new computer, and every user of a new computer is marked in \<open>t\<close>.
\<close>

definition expands :: "analyzer \<Rightarrow> cell list \<Rightarrow> cell list \<Rightarrow> analyzer \<Rightarrow> bool" where
  "expands s nu nc t \<longleftrightarrow>
     frame s t \<and>
     distinct nu \<and> set nu \<inter> visited_users s = {} \<and>
     visited_users t = visited_users s \<union> set nu \<and>
     affected_users t = affected_users s \<union> set nu \<and>
     distinct nc \<and> set nc \<inter> visited_computers s = {} \<and>
     visited_computers t = visited_computers s \<union> set nc \<and>
     affected_computers t = affected_computers s \<union> set nc \<and>
     prefix (event_log s) (event_log t) \<and>
     set nu \<subseteq> (\<Union>c\<in>set nc. set (get (computer_to_users s) c)) \<and>
     (\<forall>c\<in>set nc. set (get (computer_to_users s) c) \<subseteq> visited_users t)"

text \<open>Every user that some list of \<^verbatim>\<open>computer_to_users\<close> names.\<close>

definition known_users :: "analyzer \<Rightarrow> cell set" where
  "known_users s = (\<Union>xs\<in>ran (computer_to_users s). set xs)"

text \<open>The loop invariant that relates the number of lines of each kind to the sets.\<close>

definition counted :: "analyzer \<times> cell list \<Rightarrow> bool" where
  "counted x \<longleftrightarrow>
     (case x of (s, q) \<Rightarrow>
        finite (visited_users s) \<and> finite (visited_computers s) \<and>
        tally is_processing_line s + length q = card (visited_users s) \<and>
        tally is_access_line s = card (visited_computers s) \<and>
        tally is_header_line s = card (visited_computers s) \<and>
        tally is_activity_line s =
          (\<Sum>c\<in>visited_computers s. length (get (computer_activities s) c)) \<and>
        tally is_affected_line s + 1 = card (visited_users s))"

text \<open>The nodes that the two visited sets hold.\<close>

definition marked :: "analyzer \<Rightarrow> node set" where
  "marked s = User ` visited_users s \<union> Computer ` visited_computers s"

text \<open>
  The loop invariant of completeness: the queue holds visited users; the computers
  of every visited user that has left the queue are visited; the users of every
  visited computer are visited.
\<close>

definition settled :: "analyzer \<times> cell list \<Rightarrow> bool" where
  "settled x \<longleftrightarrow>
     (case x of (s, q) \<Rightarrow>
        set q \<subseteq> visited_users s \<and>
        (\<forall>u\<in>visited_users s - set q.
           set (get (user_to_computers s) u) \<subseteq> visited_computers s) \<and>
        (\<forall>c\<in>visited_computers s.
           set (get (computer_to_users s) c) \<subseteq> visited_users s))"

text \<open>The loop invariant of soundness: what is visited is reachable from the seed.\<close>

definition sound :: "cell \<Rightarrow> analyzer \<times> cell list \<Rightarrow> bool" where
  "sound seed x \<longleftrightarrow> marked (fst x) \<subseteq> reachable (fst x) seed"

text \<open>
  The part of the count that holds over several calls on one analyzer: one access
  line and one header for each visited computer.
\<close>

definition counted_computers :: "analyzer \<Rightarrow> bool" where
  "counted_computers s \<longleftrightarrow>
     finite (visited_computers s) \<and>
     tally is_access_line s = card (visited_computers s) \<and>
     tally is_header_line s = card (visited_computers s)"

text \<open>
  Every activity line of the log was written for a pair that \<^verbatim>\<open>computer_activities\<close>
  lists for a visited computer.
\<close>

definition logged :: "analyzer \<Rightarrow> bool" where
  "logged s \<longleftrightarrow>
     (\<forall>l\<in>set (event_log s). is_activity_line l \<longrightarrow>
        (\<exists>c\<in>visited_computers s. l \<in> activity_line ` set (get (computer_activities s) c)))"

text \<open>
  The count of the users over several calls on one analyzer, \<open>k\<close> of which started
  from a seed that was not visited before: one processing line for each visited
  user that has left the queue, one \<open>affected user\<close> line for each visited user
  but those \<open>k\<close> seeds.
\<close>

definition counted_users :: "nat \<Rightarrow> analyzer \<times> cell list \<Rightarrow> bool" where
  "counted_users k x \<longleftrightarrow>
     (case x of (s, q) \<Rightarrow>
        finite (visited_users s) \<and>
        tally is_processing_line s + length q = card (visited_users s) \<and>
        tally is_affected_line s + k = card (visited_users s))"

section \<open>Lemmas\<close>

subsection \<open>The loop over the users of a computer\<close>

lemma set_fresh: "set (fresh V xs) = set xs - V"
  by (induction xs arbitrary: V) auto

lemma distinct_fresh: "distinct (fresh V xs)"
  by (induction xs arbitrary: V) (auto simp: set_fresh)

lemma affect_users_eq:
  "affect_users c us (s, q) =
     (s\<lparr> affected_users := affected_users s \<union> set (fresh (visited_users s) us),
         visited_users := visited_users s \<union> set (fresh (visited_users s) us),
         event_log := event_log s @ map (affected_line c) (fresh (visited_users s) us) \<rparr>,
      q @ fresh (visited_users s) us)"
proof (induction us arbitrary: s q)
  case Nil
  show ?case by simp
next
  case (Cons u us)
  show ?case
  proof (cases "u \<in> visited_users s")
    case True
    then show ?thesis using Cons.IH [of s q] by simp
  next
    case False
    then show ?thesis
      by (simp add: Cons.IH affected_line_def)
  qed
qed

subsection \<open>The loop over the computers of a user\<close>

lemma visit_one:
  "visit_computers u [c] (s, q) =
     (if c \<in> visited_computers s then (s, q)
      else (s\<lparr> visited_computers := insert c (visited_computers s),
               affected_computers := insert c (affected_computers s),
               affected_users := affected_users s \<union> set (fresh (visited_users s) (get (computer_to_users s) c)),
               visited_users := visited_users s \<union> set (fresh (visited_users s) (get (computer_to_users s) c)),
               event_log := event_log s @ block_lines s u c \<rparr>,
            q @ fresh (visited_users s) (get (computer_to_users s) c)))"
  by (simp add: affect_users_eq block_lines_def)

lemma visit_nil: "visit_computers u [] x = x"
  by (cases x) simp

lemma visit_computers_append:
  "visit_computers u (cs @ ds) x = visit_computers u ds (visit_computers u cs x)"
proof (induction cs arbitrary: x)
  case Nil
  show ?case by (cases x) simp
next
  case (Cons c cs)
  show ?case by (cases x) (simp add: Cons.IH)
qed

lemma visit_computers_Cons:
  "visit_computers u (c # cs) x = visit_computers u cs (visit_computers u [c] x)"
  using visit_computers_append [of u "[c]" cs x] by simp

declare visit_computers.simps [simp del] affect_users.simps [simp del]

subsection \<open>What a step changes\<close>

lemma frame_refl: "frame s s"
  by (simp add: frame_def)

lemma frame_trans: "frame s t \<Longrightarrow> frame t r \<Longrightarrow> frame s r"
  unfolding frame_def by (cases s, cases t, cases r) simp

lemma frame_index:
  "frame s t \<Longrightarrow> user_to_computers t = user_to_computers s \<and>
     computer_activities t = computer_activities s \<and>
     computer_to_users t = computer_to_users s"
  unfolding frame_def by (cases s, cases t) simp

lemma expands_refl: "expands s [] [] s"
  by (simp add: expands_def frame_refl)

lemma expands_trans:
  assumes "expands s nu nc t" and "expands t nu' nc' r"
  shows "expands s (nu @ nu') (nc @ nc') r"
proof -
  have idx: "computer_to_users t = computer_to_users s"
    using assms(1) frame_index unfolding expands_def by blast
  have "frame s t" "frame t r"
    using assms unfolding expands_def by simp_all
  then have "frame s r" by (rule frame_trans)
  moreover have "prefix (event_log s) (event_log r)"
    using assms unfolding expands_def by (meson prefix_order.trans)
  moreover have "distinct (nu @ nu')" "distinct (nc @ nc')"
    using assms unfolding expands_def by auto
  moreover have "set (nu @ nu') \<inter> visited_users s = {}"
    "set (nc @ nc') \<inter> visited_computers s = {}"
    using assms unfolding expands_def by auto
  moreover have "visited_users r = visited_users s \<union> set (nu @ nu')"
    "affected_users r = affected_users s \<union> set (nu @ nu')"
    "visited_computers r = visited_computers s \<union> set (nc @ nc')"
    "affected_computers r = affected_computers s \<union> set (nc @ nc')"
    using assms unfolding expands_def by auto
  moreover have "set (nu @ nu') \<subseteq> (\<Union>c\<in>set (nc @ nc'). set (get (computer_to_users s) c))"
    using assms idx unfolding expands_def by auto
  moreover have "\<forall>c\<in>set (nc @ nc'). set (get (computer_to_users s) c) \<subseteq> visited_users r"
  proof -
    have a: "\<forall>c\<in>set nc. set (get (computer_to_users s) c) \<subseteq> visited_users t"
      using assms(1) unfolding expands_def by blast
    have b: "\<forall>c\<in>set nc'. set (get (computer_to_users t) c) \<subseteq> visited_users r"
      using assms(2) unfolding expands_def by blast
    have c: "visited_users t \<subseteq> visited_users r"
      using assms(2) unfolding expands_def by blast
    show ?thesis using a b c idx by auto
  qed
  ultimately show ?thesis unfolding expands_def by blast
qed

lemma visit_one_expands:
  assumes "c \<notin> visited_computers s"
  shows "\<exists>t nu. visit_computers u [c] (s, q) = (t, q @ nu) \<and> expands s nu [c] t"
  using assms
  by (auto simp: visit_one expands_def frame_def set_fresh distinct_fresh)

lemma visit_computers_expands:
  "\<exists>t nu nc. visit_computers u cs (s, q) = (t, q @ nu) \<and> expands s nu nc t \<and>
     set nc = set cs - visited_computers s"
proof (induction cs arbitrary: s q)
  case Nil
  show ?case using expands_refl [of s] by (simp add: visit_nil)
next
  case (Cons c cs)
  show ?case
  proof (cases "c \<in> visited_computers s")
    case True
    then have "visit_computers u (c # cs) (s, q) = visit_computers u cs (s, q)"
      by (subst visit_computers_Cons) (simp add: visit_one)
    moreover obtain t nu nc where "visit_computers u cs (s, q) = (t, q @ nu)"
      "expands s nu nc t" "set nc = set cs - visited_computers s"
      using Cons.IH [of s q] by blast
    ultimately show ?thesis using True by auto
  next
    case False
    obtain s1 nu1 where one: "visit_computers u [c] (s, q) = (s1, q @ nu1)"
      and e1: "expands s nu1 [c] s1"
      using visit_one_expands [OF False] by blast
    obtain t nu nc where rest: "visit_computers u cs (s1, q @ nu1) = (t, (q @ nu1) @ nu)"
      and e2: "expands s1 nu nc t" and nc: "set nc = set cs - visited_computers s1"
      using Cons.IH [of s1 "q @ nu1"] by blast
    have "visit_computers u (c # cs) (s, q) = (t, q @ (nu1 @ nu))"
      using one rest by (subst visit_computers_Cons) simp
    moreover have "expands s (nu1 @ nu) ([c] @ nc) t"
      using e1 e2 by (rule expands_trans)
    moreover have "set ([c] @ nc) = set (c # cs) - visited_computers s"
      using nc e1 False unfolding expands_def by auto
    ultimately show ?thesis by blast
  qed
qed

lemma expands_after_log:
  "expands (s\<lparr>event_log := event_log s @ ls\<rparr>) nu nc t \<Longrightarrow> expands s nu nc t"
  unfolding expands_def frame_def by (auto simp: prefix_def) blast

lemma process_user_Nil: "process_user (s, []) = (s, [])"
  by (simp add: process_user_def)

lemma process_user_Cons:
  "\<exists>t nu nc. process_user (s, u # q) = (t, q @ nu) \<and> expands s nu nc t \<and>
     set nc = set (get (user_to_computers s) u) - visited_computers s \<and>
     prefix (event_log s @ [''Processing user: '' @ str u]) (event_log t)"
proof -
  let ?s = "s\<lparr>event_log := event_log s @ [''Processing user: '' @ str u]\<rparr>"
  obtain t nu nc where v: "visit_computers u (get (user_to_computers s) u) (?s, q) = (t, q @ nu)"
    and e: "expands ?s nu nc t"
    and nc: "set nc = set (get (user_to_computers s) u) - visited_computers ?s"
    using visit_computers_expands [of u "get (user_to_computers s) u" ?s q] by blast
  have "process_user (s, u # q) = (t, q @ nu)"
    using v by (simp add: process_user_def)
  moreover have "expands s nu nc t"
    using e by (rule expands_after_log)
  moreover have "prefix (event_log ?s) (event_log t)"
    using e unfolding expands_def by blast
  ultimately show ?thesis using nc by auto
qed

subsection \<open>Termination\<close>

text \<open>The loop returns whenever the dictionary of users per computer is finite.\<close>

lemma get_subset_known: "set (get (computer_to_users s) c) \<subseteq> known_users s"
proof
  fix x
  assume "x \<in> set (get (computer_to_users s) c)"
  then obtain xs where "computer_to_users s c = Some xs" and "x \<in> set xs"
    by (cases "computer_to_users s c") (auto simp: get_def)
  then show "x \<in> known_users s"
    unfolding known_users_def by (meson UN_I ranI)
qed

lemma finite_known_users: "finite (dom (computer_to_users s)) \<Longrightarrow> finite (known_users s)"
  unfolding known_users_def by (simp add: finite_ran)

lemma frame_known_users: "frame s t \<Longrightarrow> known_users t = known_users s"
  using frame_index [of s t] by (simp add: known_users_def)

lemma expands_measure:
  assumes e: "expands s nu nc t" and fin: "finite (known_users s)"
  shows "card (known_users s - visited_users t) + length nu = card (known_users s - visited_users s)"
proof -
  have d: "distinct nu" and i: "set nu \<inter> visited_users s = {}"
    and v: "visited_users t = visited_users s \<union> set nu"
    and sub: "set nu \<subseteq> (\<Union>c\<in>set nc. set (get (computer_to_users s) c))"
    using e unfolding expands_def by blast+
  have "set nu \<subseteq> known_users s"
    using sub get_subset_known [of s] by blast
  then have sub': "set nu \<subseteq> known_users s - visited_users s"
    using i by blast
  have "known_users s - visited_users t = (known_users s - visited_users s) - set nu"
    using v by blast
  then have "card (known_users s - visited_users t) =
      card (known_users s - visited_users s) - card (set nu)"
    using sub' by (simp add: card_Diff_subset)
  moreover have "card (set nu) \<le> card (known_users s - visited_users s)"
    using sub' fin by (simp add: card_mono)
  moreover have "card (set nu) = length nu"
    using d by (rule distinct_card)
  ultimately show ?thesis by simp
qed

lemma loop_terminates:
  assumes fin: "finite (dom (computer_to_users s))"
  shows "\<exists>r. while_option queue_nonempty process_user (s, q) = Some r"
proof (rule measure_while_option_Some [where
      P = "\<lambda>x. known_users (fst x) = known_users s"
      and f = "\<lambda>x. card (known_users s - visited_users (fst x)) + length (snd x)"])
  show "known_users (fst (s, q)) = known_users s" by simp
next
  fix x :: "analyzer \<times> cell list"
  assume P: "known_users (fst x) = known_users s" and b: "queue_nonempty x"
  obtain s1 u q1 where x: "x = (s1, u # q1)"
    using b by (cases x, cases "snd x") (auto simp: queue_nonempty_def)
  obtain t nu nc where p: "process_user (s1, u # q1) = (t, q1 @ nu)"
    and e: "expands s1 nu nc t"
    using process_user_Cons [of s1 u q1] by blast
  have k1: "known_users s1 = known_users s" using P x by simp
  have "frame s1 t" using e unfolding expands_def by blast
  then have k2: "known_users t = known_users s"
    using frame_known_users [of s1 t] k1 by simp
  have "finite (known_users s1)"
    using fin finite_known_users [of s] k1 by simp
  then have "card (known_users s1 - visited_users t) + length nu =
      card (known_users s1 - visited_users s1)"
    using e by (rule expands_measure [rotated])
  then show "known_users (fst (process_user x)) = known_users s \<and>
      card (known_users s - visited_users (fst (process_user x))) + length (snd (process_user x))
      < card (known_users s - visited_users (fst x)) + length (snd x)"
    using x p k1 k2 by simp
qed

subsection \<open>Counting the lines of each kind\<close>

lemma visit_computers_induct:
  assumes init: "P (s, q)"
    and step: "\<And>s q c. P (s, q) \<Longrightarrow> c \<notin> visited_computers s \<Longrightarrow> P (visit_computers u [c] (s, q))"
  shows "P (visit_computers u cs (s, q))"
  using init
proof (induction cs arbitrary: s q)
  case Nil
  then show ?case by (simp add: visit_nil)
next
  case (Cons c cs)
  obtain s1 q1 where one: "visit_computers u [c] (s, q) = (s1, q1)"
    by (cases "visit_computers u [c] (s, q)")
  have "P (s1, q1)"
  proof (cases "c \<in> visited_computers s")
    case True
    then show ?thesis using one Cons.prems by (simp add: visit_one)
  next
    case False
    then show ?thesis using step [OF Cons.prems False] one by simp
  qed
  then have "P (visit_computers u cs (s1, q1))" by (rule Cons.IH)
  then show ?case using one by (subst visit_computers_Cons) simp
qed

lemmas line_kinds = is_processing_line_def is_access_line_def is_header_line_def
  is_activity_line_def is_affected_line_def

lemma kind_activity_line:
  "is_activity_line (activity_line p)" "\<not> is_processing_line (activity_line p)"
  "\<not> is_access_line (activity_line p)" "\<not> is_header_line (activity_line p)"
  "\<not> is_affected_line (activity_line p)"
  by (simp_all add: line_kinds activity_line_def split: prod.splits)

lemma kind_affected_line:
  "is_affected_line (affected_line c u)" "\<not> is_processing_line (affected_line c u)"
  "\<not> is_access_line (affected_line c u)" "\<not> is_header_line (affected_line c u)"
  "\<not> is_activity_line (affected_line c u)"
  by (simp_all add: line_kinds affected_line_def)

lemma filter_map_all: "(\<And>x. p (f x)) \<Longrightarrow> filter p (map f xs) = map f xs"
  by (induction xs) simp_all

lemma filter_map_none: "(\<And>x. \<not> p (f x)) \<Longrightarrow> filter p (map f xs) = []"
  by (induction xs) simp_all

lemma block_lines_kinds:
  "length (filter is_processing_line (block_lines s u c)) = 0"
  "length (filter is_access_line (block_lines s u c)) = 1"
  "length (filter is_header_line (block_lines s u c)) = 1"
  "length (filter is_activity_line (block_lines s u c)) = length (get (computer_activities s) c)"
  "length (filter is_affected_line (block_lines s u c)) =
     length (fresh (visited_users s) (get (computer_to_users s) c))"
  unfolding block_lines_def
  by (simp_all add: filter_map_all filter_map_none kind_activity_line kind_affected_line)
     (simp_all add: line_kinds)

lemma card_fresh: "finite V \<Longrightarrow> card (V \<union> set (fresh V xs)) = card V + length (fresh V xs)"
proof -
  assume fin: "finite V"
  have "V \<inter> set (fresh V xs) = {}" by (auto simp: set_fresh)
  then have "card (V \<union> set (fresh V xs)) = card V + card (set (fresh V xs))"
    using fin by (simp add: card_Un_disjoint)
  then show ?thesis by (simp add: distinct_card distinct_fresh)
qed

lemma counted_visit_one:
  assumes "counted (s, q)" and "c \<notin> visited_computers s"
  shows "counted (visit_computers u [c] (s, q))"
  using assms
  by (simp add: visit_one counted_def tally_def block_lines_kinds card_fresh)

lemma kind_processing_line:
  "is_processing_line (''Processing user: '' @ str u)"
  "\<not> is_access_line (''Processing user: '' @ str u)"
  "\<not> is_header_line (''Processing user: '' @ str u)"
  "\<not> is_activity_line (''Processing user: '' @ str u)"
  "\<not> is_affected_line (''Processing user: '' @ str u)"
  by (simp_all add: line_kinds)

lemma kind_start_line:
  "\<not> is_processing_line (''Analysis started with suspicious user '' @ str u)"
  "\<not> is_access_line (''Analysis started with suspicious user '' @ str u)"
  "\<not> is_header_line (''Analysis started with suspicious user '' @ str u)"
  "\<not> is_activity_line (''Analysis started with suspicious user '' @ str u)"
  "\<not> is_affected_line (''Analysis started with suspicious user '' @ str u)"
  by (simp_all add: line_kinds)

lemma counted_process_user:
  assumes "counted x"
  shows "counted (process_user x)"
proof -
  obtain s q where x: "x = (s, q)" by (cases x)
  show ?thesis
  proof (cases q)
    case Nil
    then show ?thesis using assms x by (simp add: process_user_Nil)
  next
    case (Cons u q')
    let ?s = "s\<lparr>event_log := event_log s @ [''Processing user: '' @ str u]\<rparr>"
    have "counted (?s, q')"
      using assms x Cons
      by (simp add: counted_def tally_def kind_processing_line del: append.simps)
    then have "counted (visit_computers u (get (user_to_computers s) u) (?s, q'))"
      by (rule visit_computers_induct) (rule counted_visit_one)
    then show ?thesis using x Cons by (simp add: process_user_def)
  qed
qed

lemma counted_start:
  assumes "fresh_analyzer s"
  shows "counted (start_analysis s seed)"
  using assms
  by (simp add: fresh_analyzer_def start_analysis_def counted_def tally_def kind_start_line
      del: append.simps)

subsection \<open>Soundness and completeness\<close>

lemma frame_edges: "frame s t \<Longrightarrow> edges t = edges s"
  using frame_index [of s t] by (simp add: edges_def)

lemma frame_reachable: "frame s t \<Longrightarrow> reachable t seed = reachable s seed"
  by (simp add: reachable_def frame_edges)

lemma settled_process_user:
  assumes "settled x"
  shows "settled (process_user x)"
proof -
  obtain s q where x: "x = (s, q)" by (cases x)
  show ?thesis
  proof (cases q)
    case Nil
    then show ?thesis using assms x by (simp add: process_user_Nil)
  next
    case (Cons u q')
    obtain t nu nc where p: "process_user (s, u # q') = (t, q' @ nu)"
      and e: "expands s nu nc t"
      and nc: "set nc = set (get (user_to_computers s) u) - visited_computers s"
      using process_user_Cons [of s u q'] by blast
    have idx: "user_to_computers t = user_to_computers s"
      "computer_to_users t = computer_to_users s"
      using e frame_index [of s t] unfolding expands_def by blast+
    have vu: "visited_users t = visited_users s \<union> set nu"
      and vc: "visited_computers t = visited_computers s \<union> set nc"
      and cl: "\<forall>c\<in>set nc. set (get (computer_to_users s) c) \<subseteq> visited_users t"
      using e unfolding expands_def by blast+
    have q: "set (u # q') \<subseteq> visited_users s"
      and us: "\<forall>w\<in>visited_users s - set (u # q').
                 set (get (user_to_computers s) w) \<subseteq> visited_computers s"
      and cs: "\<forall>c\<in>visited_computers s. set (get (computer_to_users s) c) \<subseteq> visited_users s"
      using assms x Cons unfolding settled_def by auto
    have "set (q' @ nu) \<subseteq> visited_users t"
      using q vu by auto
    moreover have "\<forall>w\<in>visited_users t - set (q' @ nu).
        set (get (user_to_computers t) w) \<subseteq> visited_computers t"
    proof
      fix w assume w: "w \<in> visited_users t - set (q' @ nu)"
      show "set (get (user_to_computers t) w) \<subseteq> visited_computers t"
      proof (cases "w = u")
        case True
        then show ?thesis using nc vc idx by auto
      next
        case False
        then have "w \<in> visited_users s - set (u # q')" using w vu by auto
        then have "set (get (user_to_computers s) w) \<subseteq> visited_computers s"
          using us by blast
        then show ?thesis using vc idx by auto
      qed
    qed
    moreover have "\<forall>c\<in>visited_computers t.
        set (get (computer_to_users t) c) \<subseteq> visited_users t"
    proof
      fix c assume c: "c \<in> visited_computers t"
      show "set (get (computer_to_users t) c) \<subseteq> visited_users t"
      proof (cases "c \<in> set nc")
        case True
        then show ?thesis using cl idx by simp
      next
        case False
        then have "c \<in> visited_computers s" using c vc by auto
        then have "set (get (computer_to_users s) c) \<subseteq> visited_users s"
          using cs by blast
        then show ?thesis using vu idx by auto
      qed
    qed
    ultimately show ?thesis using x Cons p by (simp add: settled_def)
  qed
qed

lemma sound_process_user:
  assumes "sound seed x" and "settled x"
  shows "sound seed (process_user x)"
proof -
  obtain s q where x: "x = (s, q)" by (cases x)
  show ?thesis
  proof (cases q)
    case Nil
    then show ?thesis using assms x by (simp add: process_user_Nil)
  next
    case (Cons u q')
    obtain t nu nc where p: "process_user (s, u # q') = (t, q' @ nu)"
      and e: "expands s nu nc t"
      and nc: "set nc = set (get (user_to_computers s) u) - visited_computers s"
      using process_user_Cons [of s u q'] by blast
    have fr: "frame s t" and vu: "visited_users t = visited_users s \<union> set nu"
      and vc: "visited_computers t = visited_computers s \<union> set nc"
      and sub: "set nu \<subseteq> (\<Union>c\<in>set nc. set (get (computer_to_users s) c))"
      using e unfolding expands_def by blast+
    have old: "marked s \<subseteq> reachable s seed"
      using assms(1) x by (simp add: sound_def)
    have "u \<in> visited_users s"
      using assms(2) x Cons by (simp add: settled_def)
    then have u: "(User seed, User u) \<in> (edges s)\<^sup>*"
      using old by (auto simp: marked_def reachable_def)
    have comp: "(User seed, Computer c) \<in> (edges s)\<^sup>*" if "c \<in> set nc" for c
    proof -
      have "(User u, Computer c) \<in> edges s"
        using that nc by (auto simp: edges_def)
      then show ?thesis using u by (rule rtrancl_into_rtrancl [rotated])
    qed
    have user: "(User seed, User w) \<in> (edges s)\<^sup>*" if w: "w \<in> set nu" for w
    proof -
      obtain c where c: "c \<in> set nc" and "w \<in> set (get (computer_to_users s) c)"
        using w sub by blast
      then have "(Computer c, User w) \<in> edges s"
        by (auto simp: edges_def)
      then show ?thesis using comp [OF c] by (rule rtrancl_into_rtrancl [rotated])
    qed
    have "marked t \<subseteq> reachable s seed"
      using old comp user vu vc by (auto simp: marked_def reachable_def)
    then show ?thesis
      using x Cons p frame_reachable [OF fr] by (simp add: sound_def)
  qed
qed

lemma settled_complete:
  assumes cl: "settled (s, [])" and seed: "seed \<in> visited_users s"
  shows "reachable s seed \<subseteq> marked s"
proof
  fix n assume "n \<in> reachable s seed"
  then have "(User seed, n) \<in> (edges s)\<^sup>*" by (simp add: reachable_def)
  then show "n \<in> marked s"
  proof (induction rule: rtrancl_induct)
    case base
    show ?case using seed by (simp add: marked_def)
  next
    case (step y z)
    from step.hyps(2) step.IH cl show ?case
      unfolding edges_def marked_def settled_def by auto blast+
  qed
qed

subsection \<open>The constructor\<close>

lemma get_empty: "get Map.empty k = []"
  by (simp add: get_def)

lemma get_append_at: "get (append_at d k v) k' = (if k' = k then get d k @ [v] else get d k')"
  by (simp add: append_at_def get_def)

lemma dom_append_at: "dom (append_at d k v) = insert k (dom d)"
  by (simp add: append_at_def)

lemma index_activity_logs_isl:
  "isl (index_activity_logs rs u2c) \<longleftrightarrow>
     (\<exists>r\<in>set rs. r ''user_id'' = None \<or> r ''computer_id'' = None)"
  by (induction rs arbitrary: u2c) (auto split: option.splits)

lemma index_access_logs_isl:
  "isl (index_access_logs rs (ca, c2u)) \<longleftrightarrow>
     (\<exists>r\<in>set rs. r ''computer_id'' = None \<or> r ''affected_user_id'' = None \<or>
        r ''activity_type'' = None)"
  by (induction rs arbitrary: ca c2u) (auto split: option.splits)

lemma index_access_logs_finite:
  "index_access_logs rs (ca, c2u) = Inr (ca', c2u') \<Longrightarrow> finite (dom c2u) \<Longrightarrow> finite (dom c2u')"
  by (induction rs arbitrary: ca c2u) (auto split: option.splits simp: dom_append_at)

lemma index_access_logs_users:
  "index_access_logs rs (ca, c2u) = Inr (ca', c2u') \<Longrightarrow>
   (\<And>c. map fst (get ca c) = get c2u c) \<Longrightarrow> map fst (get ca' c) = get c2u' c"
proof (induction rs arbitrary: ca c2u)
  case Nil
  then show ?case by simp
next
  case (Cons r rs)
  from Cons.prems(1) obtain k u a where r: "r ''computer_id'' = Some k"
    "r ''affected_user_id'' = Some u" "r ''activity_type'' = Some a"
    and rest: "index_access_logs rs (append_at ca k (u, a), append_at c2u k u) = Inr (ca', c2u')"
    by (auto split: option.splits)
  show ?case
    using rest by (rule Cons.IH) (simp add: get_append_at Cons.prems(2))
qed

lemma init_Inr:
  assumes "SecurityAnalyzer_init acc act = Inr s"
  shows "fresh_analyzer s" and "finite (dom (computer_to_users s))"
    and "map fst (get (computer_activities s) c) = get (computer_to_users s) c"
proof -
  from assms obtain u2c ca c2u where
    a: "index_access_logs acc (Map.empty, Map.empty) = Inr (ca, c2u)"
    and s: "s = \<lparr> access_logs = acc, activity_logs = act, visited_users = {},
       visited_computers = {}, event_log = [], affected_users = {}, affected_computers = {},
       user_to_computers = u2c, computer_activities = ca, computer_to_users = c2u \<rparr>"
    by (auto simp: SecurityAnalyzer_init_def split: sum.splits)
  show "fresh_analyzer s" using s by (simp add: fresh_analyzer_def)
  show "finite (dom (computer_to_users s))"
    using index_access_logs_finite [OF a] s by simp
  show "map fst (get (computer_activities s) c) = get (computer_to_users s) c"
    using index_access_logs_users [OF a] s by (simp add: get_empty)
qed

lemma init_isl:
  "isl (SecurityAnalyzer_init acc act) \<longleftrightarrow>
     isl (index_activity_logs act Map.empty) \<or>
     isl (index_access_logs acc (Map.empty, Map.empty))"
  by (auto simp: SecurityAnalyzer_init_def split: sum.splits)

subsection \<open>The whole loop\<close>

lemma process_user_expands: "\<exists>nu nc. expands (fst x) nu nc (fst (process_user x))"
proof -
  obtain s q where x: "x = (s, q)" by (cases x)
  show ?thesis
  proof (cases q)
    case Nil
    then show ?thesis using x expands_refl [of s] by (auto simp: process_user_Nil)
  next
    case (Cons u q')
    obtain t nu nc where "process_user (s, u # q') = (t, q' @ nu)" and "expands s nu nc t"
      using process_user_Cons [of s u q'] by blast
    then show ?thesis using x Cons by auto
  qed
qed

lemma iterate_expands: "\<exists>nu nc. expands (fst x) nu nc (fst ((process_user ^^ n) x))"
proof (induction n)
  case 0
  show ?case using expands_refl [of "fst x"] by auto
next
  case (Suc n)
  then obtain nu nc where a: "expands (fst x) nu nc (fst ((process_user ^^ n) x))" by blast
  obtain nu' nc' where b: "expands (fst ((process_user ^^ n) x)) nu' nc'
      (fst (process_user ((process_user ^^ n) x)))"
    using process_user_expands by blast
  show ?case using expands_trans [OF a b] by auto
qed

lemma loop_expands:
  assumes "while_option queue_nonempty process_user x = Some r"
  shows "\<exists>nu nc. expands (fst x) nu nc (fst r)"
proof -
  obtain k where "r = (process_user ^^ k) x"
    using while_option_stop2 [OF assms] by blast
  then show ?thesis using iterate_expands [of x k] by simp
qed

lemma loop_invariant:
  assumes "while_option queue_nonempty process_user x = Some r"
    and "\<And>y. P y \<Longrightarrow> P (process_user y)" and "P x"
  shows "P r \<and> snd r = []"
proof -
  have "P r"
    by (rule while_option_rule [where P = P, OF _ assms(1) assms(3)]) (rule assms(2))
  moreover have "snd r = []"
    using while_option_stop [OF assms(1)] by (simp add: queue_nonempty_def)
  ultimately show ?thesis by simp
qed

lemma analyze_SomeD:
  assumes "analyze_compromise s seed = Some t"
  shows "while_option queue_nonempty process_user (start_analysis s seed) = Some (t, [])"
proof -
  obtain r where r: "while_option queue_nonempty process_user (start_analysis s seed) = Some r"
    and t: "t = fst r"
    using assms by (auto simp: analyze_compromise_def)
  have "snd r = []"
    using while_option_stop [OF r] by (simp add: queue_nonempty_def)
  then show ?thesis using r t by (cases r) simp
qed

lemma analyze_terminates:
  assumes "finite (dom (computer_to_users s))"
  shows "\<exists>t. analyze_compromise s seed = Some t"
proof -
  have "finite (dom (computer_to_users (fst (start_analysis s seed))))"
    using assms by (simp add: start_analysis_def)
  then obtain r where
    "while_option queue_nonempty process_user (fst (start_analysis s seed), [seed]) = Some r"
    using loop_terminates by blast
  then show ?thesis by (simp add: analyze_compromise_def start_analysis_def)
qed

subsection \<open>Growth\<close>

lemma card_Un_set_ge: "card A \<le> card (A \<union> set xs)"
proof (cases "finite A")
  case True
  then show ?thesis by (simp add: card_mono)
next
  case False
  then show ?thesis by simp
qed

lemma grows_refl: "grows s s"
  by (simp add: grows_def)

lemma grows_trans: "grows s t \<Longrightarrow> grows t r \<Longrightarrow> grows s r"
  unfolding grows_def by (meson order_trans)

lemma expands_grows: "expands s nu nc t \<Longrightarrow> grows s t"
  unfolding expands_def grows_def by (auto simp: card_Un_set_ge)

lemma grows_affect_users: "grows (fst x) (fst (affect_users c us x))"
  by (cases x) (simp add: affect_users_eq grows_def card_Un_set_ge)

lemma grows_visit_computers: "grows (fst x) (fst (visit_computers u cs x))"
proof -
  obtain s q where x: "x = (s, q)" by (cases x)
  obtain t nu nc where "visit_computers u cs (s, q) = (t, q @ nu)" and "expands s nu nc t"
    using visit_computers_expands [of u cs s q] by blast
  then show ?thesis using x expands_grows by auto
qed

lemma affect_users_append:
  "affect_users c (us @ vs) x = affect_users c vs (affect_users c us x)"
proof (induction us arbitrary: x)
  case Nil
  show ?case by (cases x) (simp add: affect_users.simps)
next
  case (Cons u us)
  show ?case by (cases x) (simp add: Cons.IH affect_users.simps)
qed

lemma grows_iterate:
  assumes "m \<le> n"
  shows "grows (fst ((process_user ^^ m) x)) (fst ((process_user ^^ n) x))"
proof -
  obtain k where n: "n = k + m" using assms by (metis le_add_diff_inverse2)
  obtain nu nc where "expands (fst ((process_user ^^ m) x)) nu nc
      (fst ((process_user ^^ k) ((process_user ^^ m) x)))"
    using iterate_expands by blast
  then show ?thesis using n expands_grows by (simp add: funpow_add)
qed

lemma card_insert_ge: "card A \<le> card (insert x A)"
  using card_Un_set_ge [of A "[x]"] by simp

lemma grows_start: "grows s (fst (start_analysis s seed))"
  by (auto simp: start_analysis_def grows_def card_insert_ge)

lemma frame_start: "frame s (fst (start_analysis s seed))"
  by (simp add: start_analysis_def frame_def)

lemma prefix_start: "prefix (event_log s) (event_log (fst (start_analysis s seed)))"
  by (simp add: start_analysis_def)

lemma analyze_run:
  assumes "analyze_compromise s seed = Some t"
  shows "frame s t" and "grows s t" and "prefix (event_log s) (event_log t)"
proof -
  have r: "while_option queue_nonempty process_user (start_analysis s seed) = Some (t, [])"
    using assms by (rule analyze_SomeD)
  obtain nu nc where e: "expands (fst (start_analysis s seed)) nu nc t"
    using loop_expands [OF r] by auto
  have "frame (fst (start_analysis s seed)) t" using e unfolding expands_def by blast
  then show "frame s t" using frame_start frame_trans by blast
  show "grows s t" using grows_start expands_grows [OF e] grows_trans by blast
  have "prefix (event_log (fst (start_analysis s seed))) (event_log t)"
    using e unfolding expands_def by blast
  then show "prefix (event_log s) (event_log t)"
    using prefix_start prefix_order.trans by blast
qed

subsection \<open>A run on a fresh analyzer\<close>

lemma settled_start:
  assumes "settled (s, [])"
  shows "settled (start_analysis s seed)"
  using assms unfolding settled_def start_analysis_def by auto

lemma fresh_settled: "fresh_analyzer s \<Longrightarrow> settled (s, [])"
  by (simp add: fresh_analyzer_def settled_def)

lemma sound_start:
  assumes "fresh_analyzer s"
  shows "sound seed (start_analysis s seed)"
proof -
  have "reachable (fst (start_analysis s seed)) seed = reachable s seed"
    using frame_start by (rule frame_reachable)
  moreover have "User seed \<in> reachable s seed"
    by (simp add: reachable_def)
  ultimately show ?thesis
    using assms by (simp add: sound_def marked_def fresh_analyzer_def start_analysis_def)
qed

lemma settled_run:
  assumes "settled (s, [])" and "analyze_compromise s seed = Some t"
  shows "settled (t, [])"
proof -
  have r: "while_option queue_nonempty process_user (start_analysis s seed) = Some (t, [])"
    using assms(2) by (rule analyze_SomeD)
  have "settled (start_analysis s seed)"
    using assms(1) by (rule settled_start)
  then show ?thesis
    using loop_invariant [OF r, where P = settled] settled_process_user by blast
qed

lemma fresh_run:
  assumes f: "fresh_analyzer s" and a: "analyze_compromise s seed = Some t"
  shows "marked t = reachable s seed"
    and "affected_users t = visited_users t"
    and "affected_computers t = visited_computers t"
    and "counted (t, [])"
proof -
  let ?x = "start_analysis s seed"
  have r: "while_option queue_nonempty process_user ?x = Some (t, [])"
    using a by (rule analyze_SomeD)
  have "settled ?x \<and> sound seed ?x"
    using f fresh_settled settled_start sound_start by blast
  moreover have "\<And>y. settled y \<and> sound seed y \<Longrightarrow>
      settled (process_user y) \<and> sound seed (process_user y)"
    using settled_process_user sound_process_user by blast
  ultimately have inv: "settled (t, []) \<and> sound seed (t, [])"
    using loop_invariant [OF r, where P = "\<lambda>y. settled y \<and> sound seed y"] by auto
  obtain nu nc where e: "expands (fst ?x) nu nc t"
    using loop_expands [OF r] by auto
  have vu: "visited_users t = insert seed (set nu)"
    and au: "affected_users t = insert seed (set nu)"
    and vc: "visited_computers t = set nc"
    and ac: "affected_computers t = set nc"
    using e f unfolding expands_def fresh_analyzer_def start_analysis_def by auto
  show "affected_users t = visited_users t" using vu au by simp
  show "affected_computers t = visited_computers t" using vc ac by simp
  have fr: "frame s t" using a by (rule analyze_run)
  have "reachable t seed \<subseteq> marked t"
    using inv vu by (intro settled_complete) auto
  moreover have "marked t \<subseteq> reachable t seed"
    using inv by (simp add: sound_def)
  ultimately show "marked t = reachable s seed"
    using frame_reachable [OF fr] by auto
  have "counted ?x" using f by (rule counted_start)
  then show "counted (t, [])"
    using loop_invariant [OF r, where P = counted] counted_process_user by blast
qed

subsection \<open>Blocks of computers, over several runs\<close>

lemma counted_computers_visit_one:
  assumes "counted_computers s" and "c \<notin> visited_computers s"
  shows "counted_computers (fst (visit_computers u [c] (s, q)))"
  using assms
  by (simp add: visit_one counted_computers_def tally_def block_lines_kinds)

lemma counted_computers_process_user:
  assumes "counted_computers (fst x)"
  shows "counted_computers (fst (process_user x))"
proof -
  obtain s q where x: "x = (s, q)" by (cases x)
  show ?thesis
  proof (cases q)
    case Nil
    then show ?thesis using assms x by (simp add: process_user_Nil)
  next
    case (Cons u q')
    let ?s = "s\<lparr>event_log := event_log s @ [''Processing user: '' @ str u]\<rparr>"
    have "counted_computers (fst (?s, q'))"
      using assms x
      by (simp add: counted_computers_def tally_def kind_processing_line del: append.simps)
    then have "counted_computers (fst (visit_computers u (get (user_to_computers s) u) (?s, q')))"
      by (rule visit_computers_induct [where P = "\<lambda>y. counted_computers (fst y)"])
         (simp add: counted_computers_visit_one)
    then show ?thesis using x Cons by (simp add: process_user_def)
  qed
qed

lemma counted_computers_run:
  assumes "counted_computers s" and a: "analyze_compromise s seed = Some t"
  shows "counted_computers t"
proof -
  let ?x = "start_analysis s seed"
  have r: "while_option queue_nonempty process_user ?x = Some (t, [])"
    using a by (rule analyze_SomeD)
  have "counted_computers (fst ?x)"
    using assms(1)
    by (simp add: start_analysis_def counted_computers_def tally_def kind_start_line
        del: append.simps)
  then show ?thesis
    using loop_invariant [OF r, where P = "\<lambda>y. counted_computers (fst y)"]
      counted_computers_process_user by auto
qed

lemma counted_computers_fresh: "fresh_analyzer s \<Longrightarrow> counted_computers s"
  by (simp add: fresh_analyzer_def counted_computers_def tally_def)

subsection \<open>Where the activity lines come from\<close>

lemma logged_visit_one:
  assumes "logged s" and "c \<notin> visited_computers s"
  shows "logged (fst (visit_computers u [c] (s, q)))"
proof -
  have "\<not> is_activity_line (''User '' @ str u @ '' accessed computer '' @ str c)"
    "\<not> is_activity_line (''Activities on computer '' @ str c @ '':'')"
    by (simp_all add: is_activity_line_def)
  then show ?thesis
    using assms unfolding logged_def
    by (auto simp: visit_one block_lines_def kind_affected_line simp del: append.simps)
qed

lemma logged_process_user:
  assumes "logged (fst x)"
  shows "logged (fst (process_user x))"
proof -
  obtain s q where x: "x = (s, q)" by (cases x)
  show ?thesis
  proof (cases q)
    case Nil
    then show ?thesis using assms x by (simp add: process_user_Nil)
  next
    case (Cons u q')
    let ?s = "s\<lparr>event_log := event_log s @ [''Processing user: '' @ str u]\<rparr>"
    have "logged (fst (?s, q'))"
      using assms x unfolding logged_def
      by (auto simp: kind_processing_line simp del: append.simps)
    then have "logged (fst (visit_computers u (get (user_to_computers s) u) (?s, q')))"
      by (rule visit_computers_induct [where P = "\<lambda>y. logged (fst y)"])
         (simp add: logged_visit_one)
    then show ?thesis using x Cons by (simp add: process_user_def)
  qed
qed

lemma logged_run:
  assumes "logged s" and a: "analyze_compromise s seed = Some t"
  shows "logged t"
proof -
  let ?x = "start_analysis s seed"
  have r: "while_option queue_nonempty process_user ?x = Some (t, [])"
    using a by (rule analyze_SomeD)
  have "logged (fst ?x)"
    using assms(1) unfolding logged_def start_analysis_def
    by (auto simp: kind_start_line simp del: append.simps)
  then show ?thesis
    using loop_invariant [OF r, where P = "\<lambda>y. logged (fst y)"] logged_process_user by auto
qed

lemma logged_fresh: "fresh_analyzer s \<Longrightarrow> logged s"
  by (simp add: fresh_analyzer_def logged_def)

subsection \<open>The scenario\<close>

lemma init_InrI:
  assumes "\<not> isl (SecurityAnalyzer_init acc act)"
  shows "\<exists>s. SecurityAnalyzer_init acc act = Inr s"
  using assms by (cases "SecurityAnalyzer_init acc act") simp_all

lemma scenario_init:
  "\<exists>s. SecurityAnalyzer_init scenario_access_logs scenario_activity_logs = Inr s"
  by (rule init_InrI)
     (simp add: init_isl index_activity_logs_isl index_access_logs_isl
        scenario_access_logs_def scenario_activity_logs_def)

lemma revisit_init:
  "\<exists>s. SecurityAnalyzer_init scenario_access_logs revisit_activity_logs = Inr s"
  by (rule init_InrI)
     (simp add: init_isl index_activity_logs_isl index_access_logs_isl
        scenario_access_logs_def revisit_activity_logs_def)

lemma scenario_run:
  "\<exists>s t. SecurityAnalyzer_init scenario_access_logs scenario_activity_logs = Inr s \<and>
     analyze_compromise s seed = Some t"
  using scenario_init init_Inr(2) analyze_terminates by blast

lemma scenario_U2:
  assumes "SecurityAnalyzer_init scenario_access_logs scenario_activity_logs = Inr s"
  shows "user_to_computers s (Str ''U2'') = None"
  using assms
  by (auto simp: SecurityAnalyzer_init_def scenario_activity_logs_def append_at_def
      split: sum.splits)

lemma scenario_eval:
  "case SecurityAnalyzer_init scenario_access_logs scenario_activity_logs of
     Inl e \<Rightarrow> False
   | Inr s \<Rightarrow>
       (case analyze_compromise s (Str ''U1'') of
          None \<Rightarrow> False
        | Some t \<Rightarrow>
            affected_users t = {Str ''U1'', Str ''U2'', Str ''U3''} \<and>
            affected_computers t = {Str ''C1''} \<and>
            event_log t =
              [''Analysis started with suspicious user U1'',
               ''Processing user: U1'',
               ''User U1 accessed computer C1'',
               ''Activities on computer C1:'',
               ''  - login by user U2'',
               ''  - copy by user U3'',
               ''Computer C1 affected user U2'',
               ''Computer C1 affected user U3'',
               ''Processing user: U2'',
               ''Processing user: U3''])"
  by code_simp

lemma revisit_eval:
  "case SecurityAnalyzer_init scenario_access_logs revisit_activity_logs of
     Inl e \<Rightarrow> False
   | Inr s \<Rightarrow>
       (case analyze_compromise s (Str ''U1'') of
          None \<Rightarrow> False
        | Some t \<Rightarrow>
            event_log t =
              [''Analysis started with suspicious user U1'',
               ''Processing user: U1'',
               ''User U1 accessed computer C1'',
               ''Activities on computer C1:'',
               ''  - login by user U2'',
               ''  - copy by user U3'',
               ''Computer C1 affected user U2'',
               ''Computer C1 affected user U3'',
               ''Processing user: U2'',
               ''Processing user: U3''])"
  by code_simp

lemma analyze_no_computers:
  assumes "user_to_computers s seed = None"
  shows "analyze_compromise s seed =
     Some (s\<lparr> visited_users := insert seed (visited_users s),
              affected_users := insert seed (affected_users s),
              event_log := event_log s @
                [''Analysis started with suspicious user '' @ str seed,
                 ''Processing user: '' @ str seed] \<rparr>)"
proof -
  let ?s = "fst (start_analysis s seed)"
  let ?t = "?s\<lparr>event_log := event_log ?s @ [''Processing user: '' @ str seed]\<rparr>"
  have g: "get (user_to_computers ?s) seed = []"
    using assms by (simp add: get_def start_analysis_def)
  have p: "process_user (?s, [seed]) = (?t, [])"
    using g by (simp add: process_user_def visit_nil)
  have "while_option queue_nonempty process_user (?s, [seed]) = Some (?t, [])"
    by (subst while_option_unfold, simp add: queue_nonempty_def p)
       (subst while_option_unfold, simp add: queue_nonempty_def)
  then show ?thesis
    by (simp add: analyze_compromise_def start_analysis_def)
qed

lemma visit_skip:
  assumes "c \<in> visited_computers (fst x)"
  shows "visit_computers u (c # cs) x = visit_computers u cs x"
  using assms by (cases x) (simp add: visit_computers.simps)

subsection \<open>A seed whose computers are all visited\<close>

lemma visit_all_visited:
  assumes "set cs \<subseteq> visited_computers (fst x)"
  shows "visit_computers u cs x = x"
  using assms
proof (induction cs)
  case Nil
  show ?case by (simp add: visit_nil)
next
  case (Cons c cs)
  then show ?case using visit_skip [of c x u cs] by simp
qed

lemma analyze_all_visited:
  assumes "set (get (user_to_computers s) seed) \<subseteq> visited_computers s"
  shows "analyze_compromise s seed =
     Some (s\<lparr> visited_users := insert seed (visited_users s),
              affected_users := insert seed (affected_users s),
              event_log := event_log s @
                [''Analysis started with suspicious user '' @ str seed,
                 ''Processing user: '' @ str seed] \<rparr>)"
proof -
  let ?s = "fst (start_analysis s seed)"
  let ?t = "?s\<lparr>event_log := event_log ?s @ [''Processing user: '' @ str seed]\<rparr>"
  have "set (get (user_to_computers ?s) seed) \<subseteq> visited_computers (fst (?t, []::cell list))"
    using assms by (simp add: start_analysis_def)
  then have "visit_computers seed (get (user_to_computers ?s) seed) (?t, []) = (?t, [])"
    by (rule visit_all_visited)
  then have p: "process_user (?s, [seed]) = (?t, [])"
    by (simp add: process_user_def)
  have "while_option queue_nonempty process_user (?s, [seed]) = Some (?t, [])"
    by (subst while_option_unfold, simp add: queue_nonempty_def p)
       (subst while_option_unfold, simp add: queue_nonempty_def)
  then show ?thesis
    by (simp add: analyze_compromise_def start_analysis_def)
qed

subsection \<open>Users over several runs\<close>

lemma counted_users_visit_one:
  assumes "counted_users k (s, q)" and "c \<notin> visited_computers s"
  shows "counted_users k (visit_computers u [c] (s, q))"
  using assms
  by (simp add: visit_one counted_users_def tally_def block_lines_kinds card_fresh)

lemma counted_users_process_user:
  assumes "counted_users k x"
  shows "counted_users k (process_user x)"
proof -
  obtain s q where x: "x = (s, q)" by (cases x)
  show ?thesis
  proof (cases q)
    case Nil
    then show ?thesis using assms x by (simp add: process_user_Nil)
  next
    case (Cons u q')
    let ?s = "s\<lparr>event_log := event_log s @ [''Processing user: '' @ str u]\<rparr>"
    have "counted_users k (?s, q')"
      using assms x Cons
      by (simp add: counted_users_def tally_def kind_processing_line del: append.simps)
    then have "counted_users k (visit_computers u (get (user_to_computers s) u) (?s, q'))"
      by (rule visit_computers_induct) (rule counted_users_visit_one)
    then show ?thesis using x Cons by (simp add: process_user_def)
  qed
qed

lemma counted_users_start:
  assumes "counted_users k (s, [])" and "seed \<notin> visited_users s"
  shows "counted_users (Suc k) (start_analysis s seed)"
  using assms
  by (simp add: start_analysis_def counted_users_def tally_def kind_start_line
      del: append.simps)

lemma counted_users_run:
  assumes "counted_users k (s, [])" and "seed \<notin> visited_users s"
    and a: "analyze_compromise s seed = Some t"
  shows "counted_users (Suc k) (t, [])"
proof -
  have r: "while_option queue_nonempty process_user (start_analysis s seed) = Some (t, [])"
    using a by (rule analyze_SomeD)
  have "counted_users (Suc k) (start_analysis s seed)"
    using assms(1,2) by (rule counted_users_start)
  then show ?thesis
    using loop_invariant [OF r, where P = "counted_users (Suc k)"] counted_users_process_user
    by blast
qed

lemma counted_counted_users: "counted x \<Longrightarrow> counted_users 1 x"
  by (cases x) (simp add: counted_def counted_users_def)

subsection \<open>What the constructor stores\<close>

lemma append_at_apply:
  "append_at d k v k' = (if k' = k then Some (get d k @ [v]) else d k')"
  by (simp add: append_at_def)

lemma index_activity_logs_apply:
  "index_activity_logs rs u2c = Inr u2c' \<Longrightarrow>
   u2c' u = (if spec_user_to_computers rs u = [] then u2c u
             else Some (get u2c u @ spec_user_to_computers rs u))"
proof (induction rs arbitrary: u2c)
  case Nil
  then show ?case by (simp add: spec_user_to_computers_def)
next
  case (Cons r rs)
  from Cons.prems obtain k c where r: "r ''user_id'' = Some k" "r ''computer_id'' = Some c"
    and rest: "index_activity_logs rs (append_at u2c k c) = Inr u2c'"
    by (auto split: option.splits)
  have "u2c' u = (if spec_user_to_computers rs u = [] then append_at u2c k c u
             else Some (get (append_at u2c k c) u @ spec_user_to_computers rs u))"
    using rest by (rule Cons.IH)
  then show ?case
    using r
    by (simp add: get_append_at append_at_apply spec_user_to_computers_def
        List.map_filter_simps)
qed

lemma index_access_logs_apply:
  "index_access_logs rs (ca, c2u) = Inr (ca', c2u') \<Longrightarrow>
   ca' c = (if spec_computer_activities rs c = [] then ca c
            else Some (get ca c @ spec_computer_activities rs c)) \<and>
   c2u' c = (if spec_computer_to_users rs c = [] then c2u c
             else Some (get c2u c @ spec_computer_to_users rs c))"
proof (induction rs arbitrary: ca c2u)
  case Nil
  then show ?case by (simp add: spec_computer_activities_def spec_computer_to_users_def)
next
  case (Cons r rs)
  from Cons.prems obtain k u a where r: "r ''computer_id'' = Some k"
    "r ''affected_user_id'' = Some u" "r ''activity_type'' = Some a"
    and rest: "index_access_logs rs (append_at ca k (u, a), append_at c2u k u) = Inr (ca', c2u')"
    by (auto split: option.splits)
  have "ca' c = (if spec_computer_activities rs c = [] then append_at ca k (u, a) c
            else Some (get (append_at ca k (u, a)) c @ spec_computer_activities rs c)) \<and>
   c2u' c = (if spec_computer_to_users rs c = [] then append_at c2u k u c
             else Some (get (append_at c2u k u) c @ spec_computer_to_users rs c))"
    using rest by (rule Cons.IH)
  then show ?case
    using r
    by (simp add: get_append_at append_at_apply spec_computer_activities_def
        spec_computer_to_users_def List.map_filter_simps)
qed

lemma init_result:
  assumes "SecurityAnalyzer_init acc act = Inr s"
  shows "s = \<lparr> access_logs = acc, activity_logs = act, visited_users = {},
       visited_computers = {}, event_log = [], affected_users = {}, affected_computers = {},
       user_to_computers = spec_mapping (spec_user_to_computers act),
       computer_activities = spec_mapping (spec_computer_activities acc),
       computer_to_users = spec_mapping (spec_computer_to_users acc) \<rparr>"
proof -
  from assms obtain u2c ca c2u where
    i: "index_activity_logs act Map.empty = Inr u2c"
    and a: "index_access_logs acc (Map.empty, Map.empty) = Inr (ca, c2u)"
    and s: "s = \<lparr> access_logs = acc, activity_logs = act, visited_users = {},
       visited_computers = {}, event_log = [], affected_users = {}, affected_computers = {},
       user_to_computers = u2c, computer_activities = ca, computer_to_users = c2u \<rparr>"
    by (auto simp: SecurityAnalyzer_init_def split: sum.splits)
  have "u2c = spec_mapping (spec_user_to_computers act)"
    using index_activity_logs_apply [OF i] by (auto simp: spec_mapping_def get_empty)
  moreover have "ca = spec_mapping (spec_computer_activities acc)"
    using index_access_logs_apply [OF a] by (auto simp: spec_mapping_def get_empty)
  moreover have "c2u = spec_mapping (spec_computer_to_users acc)"
    using index_access_logs_apply [OF a] by (auto simp: spec_mapping_def get_empty)
  ultimately show ?thesis using s by simp
qed

subsection \<open>Two calls in a row\<close>

lemma rerun_eval:
  "case SecurityAnalyzer_init rerun_access_logs rerun_activity_logs of
     Inl e \<Rightarrow> False
   | Inr s \<Rightarrow>
       (case analyze_compromise s (Str ''U1'') of
          None \<Rightarrow> False
        | Some t1 \<Rightarrow>
            Str ''U4'' \<notin> visited_users t1 \<and>
            event_log t1 =
              [''Analysis started with suspicious user U1'',
               ''Processing user: U1'',
               ''User U1 accessed computer C1'',
               ''Activities on computer C1:'',
               ''  - login by user U2'',
               ''Computer C1 affected user U2'',
               ''Processing user: U2''] \<and>
            (case analyze_compromise t1 (Str ''U4'') of
               None \<Rightarrow> False
             | Some t2 \<Rightarrow>
                 event_log t2 = event_log t1 @
                   [''Analysis started with suspicious user U4'',
                    ''Processing user: U4'',
                    ''User U4 accessed computer C2'',
                    ''Activities on computer C2:'',
                    ''  - copy by user U2'',
                    ''  - login by user U5'',
                    ''Computer C2 affected user U5'',
                    ''Processing user: U5''] \<and>
                 visited_users t2 = {Str ''U1'', Str ''U2'', Str ''U4'', Str ''U5''}))"
  by code_simp

section \<open>Claims\<close>

text \<open>
  C1. For every analyzer that the constructor builds from an access table and an
  activity table, and every seed, \<^verbatim>\<open>analyze_compromise\<close> returns, and then the
  affected users are exactly the users, and the affected computers exactly the
  computers, that the seed reaches along the edges from a user to their computers
  (\<^verbatim>\<open>user_to_computers\<close>) and from a computer to its users (\<^verbatim>\<open>computer_to_users\<close>).
\<close>

theorem affected_sets_are_reachable_sets:
  assumes "SecurityAnalyzer_init access_logs_df activity_logs_df = Inr s"
  shows "\<exists>t. analyze_compromise s seed = Some t \<and>
     affected_users t = {u. User u \<in> reachable s seed} \<and>
     affected_computers t = {c. Computer c \<in> reachable s seed}"
proof -
  have f: "fresh_analyzer s" and fin: "finite (dom (computer_to_users s))"
    using init_Inr [OF assms] by auto
  obtain t where t: "analyze_compromise s seed = Some t"
    using analyze_terminates [OF fin] by blast
  have m: "marked t = reachable s seed"
    and "affected_users t = visited_users t"
    and "affected_computers t = visited_computers t"
    using fresh_run [OF f t] by auto
  moreover have "visited_users t = {u. User u \<in> marked t}"
    "visited_computers t = {c. Computer c \<in> marked t}"
    by (auto simp: marked_def)
  ultimately show ?thesis using t by auto
qed

text \<open>
  The scenario of the specification is such an analyzer.
\<close>

theorem affected_sets_are_reachable_sets_witness:
  "\<exists>s t. SecurityAnalyzer_init scenario_access_logs scenario_activity_logs = Inr s \<and>
     analyze_compromise s (Str ''U1'') = Some t \<and>
     affected_users t = {u. User u \<in> reachable s (Str ''U1'')} \<and>
     affected_computers t = {c. Computer c \<in> reachable s (Str ''U1'')}"
proof -
  obtain s where s: "SecurityAnalyzer_init scenario_access_logs scenario_activity_logs = Inr s"
    using scenario_init by blast
  show ?thesis
    using s affected_sets_are_reachable_sets [OF s, of "Str ''U1''"] by blast
qed

text \<open>
  C2. On the index built from activity records \<open>[(U1, C1)]\<close> and access records
  \<open>[(C1, U2, login), (C1, U3, copy)]\<close>, the analysis of seed \<open>U1\<close> returns with
  affected users \<open>{U1, U2, U3}\<close>, affected computers \<open>{C1}\<close> and an event log of
  exactly the ten lines of the specification, in order.
\<close>

theorem scenario_trace:
  "\<exists>s t. SecurityAnalyzer_init scenario_access_logs scenario_activity_logs = Inr s \<and>
     analyze_compromise s (Str ''U1'') = Some t \<and>
     affected_users t = {Str ''U1'', Str ''U2'', Str ''U3''} \<and>
     affected_computers t = {Str ''C1''} \<and>
     event_log t =
       [''Analysis started with suspicious user U1'',
        ''Processing user: U1'',
        ''User U1 accessed computer C1'',
        ''Activities on computer C1:'',
        ''  - login by user U2'',
        ''  - copy by user U3'',
        ''Computer C1 affected user U2'',
        ''Computer C1 affected user U3'',
        ''Processing user: U2'',
        ''Processing user: U3'']"
  using scenario_eval by (auto split: sum.splits option.splits)

text \<open>
  C3. Whenever \<^verbatim>\<open>computer_to_users\<close> has finitely many keys, the call returns for
  every seed, whatever the sets hold when it starts. On a fresh analyzer the log
  then has one \<open>Processing user\<close> line for each visited user: every visited user
  left the queue once; and one access line for each visited computer: every visited
  computer was expanded once.
\<close>

theorem analysis_terminates:
  assumes "finite (dom (computer_to_users s))"
  shows "\<exists>t. analyze_compromise s seed = Some t \<and>
     (fresh_analyzer s \<longrightarrow>
        tally is_processing_line t = card (visited_users t) \<and>
        tally is_access_line t = card (visited_computers t))"
proof -
  obtain t where t: "analyze_compromise s seed = Some t"
    using analyze_terminates [OF assms] by blast
  have "tally is_processing_line t = card (visited_users t) \<and>
      tally is_access_line t = card (visited_computers t)" if "fresh_analyzer s"
    using fresh_run(4) [OF that t] by (simp add: counted_def)
  then show ?thesis using t by blast
qed

text \<open>
  The analyzer of the scenario is fresh and its dictionary is finite.
\<close>

theorem analysis_terminates_witness:
  "\<exists>s. SecurityAnalyzer_init scenario_access_logs scenario_activity_logs = Inr s \<and>
     finite (dom (computer_to_users s)) \<and> fresh_analyzer s \<and>
     (\<exists>t. analyze_compromise s (Str ''U1'') = Some t \<and>
        tally is_processing_line t = card (visited_users t) \<and>
        tally is_access_line t = card (visited_computers t))"
proof -
  obtain s where s: "SecurityAnalyzer_init scenario_access_logs scenario_activity_logs = Inr s"
    using scenario_init by blast
  have f: "fresh_analyzer s" and fin: "finite (dom (computer_to_users s))"
    using init_Inr [OF s] by auto
  show ?thesis
    using s f fin analysis_terminates [OF fin, of "Str ''U1''"] by blast
qed

text \<open>
  C4, as the code has it. The constructor fails, with a \<^verbatim>\<open>KeyError\<close>, exactly when
  some activity row lacks the column \<open>user_id\<close> or \<open>computer_id\<close>, or some access
  row lacks \<open>computer_id\<close>, \<open>affected_user_id\<close> or \<open>activity_type\<close>; a failed
  construction returns the error and no analyzer. What a cell holds is not checked:
  when the constructor returns, the analyzer is the one with empty sets, an empty
  log and, under every key, the cells of all rows of that key in the order of the
  table, whatever the cells are.
\<close>

theorem construction_fails_on_missing_column_only:
  "(isl (SecurityAnalyzer_init access_logs_df activity_logs_df) \<longleftrightarrow>
      (\<exists>r\<in>set activity_logs_df. r ''user_id'' = None \<or> r ''computer_id'' = None) \<or>
      (\<exists>r\<in>set access_logs_df.
         r ''computer_id'' = None \<or> r ''affected_user_id'' = None \<or>
         r ''activity_type'' = None)) \<and>
   (SecurityAnalyzer_init access_logs_df activity_logs_df = Inr s \<longrightarrow>
      s = \<lparr> access_logs = access_logs_df,
            activity_logs = activity_logs_df,
            visited_users = {},
            visited_computers = {},
            event_log = [],
            affected_users = {},
            affected_computers = {},
            user_to_computers = spec_mapping (spec_user_to_computers activity_logs_df),
            computer_activities = spec_mapping (spec_computer_activities access_logs_df),
            computer_to_users = spec_mapping (spec_computer_to_users access_logs_df) \<rparr>)"
  using init_result [of access_logs_df activity_logs_df s]
  by (simp add: init_isl index_activity_logs_isl index_access_logs_isl)

text \<open>
  An access row without the column \<open>activity_type\<close> makes the constructor fail. A
  row with an empty \<open>activity_type\<close> cell does not, and is stored with the empty
  cell.
\<close>

theorem construction_fails_on_missing_column_only_witness:
  "isl (SecurityAnalyzer_init missing_column_access_logs scenario_activity_logs) \<and>
   \<not> isl (SecurityAnalyzer_init missing_cell_access_logs scenario_activity_logs) \<and>
   (\<exists>s. SecurityAnalyzer_init missing_cell_access_logs scenario_activity_logs = Inr s \<and>
      computer_activities s (Str ''C1'') = Some [(Str ''U2'', NoneVal)] \<and>
      computer_to_users s (Str ''C1'') = Some [Str ''U2''] \<and>
      user_to_computers s (Str ''U1'') = Some [Str ''C1''] \<and>
      user_to_computers s (Str ''U2'') = None)"
proof -
  have a: "isl (SecurityAnalyzer_init missing_column_access_logs scenario_activity_logs)"
    using construction_fails_on_missing_column_only
      [of missing_column_access_logs scenario_activity_logs]
    by (simp add: missing_column_access_logs_def scenario_activity_logs_def)
  have b: "\<not> isl (SecurityAnalyzer_init missing_cell_access_logs scenario_activity_logs)"
    using construction_fails_on_missing_column_only
      [of missing_cell_access_logs scenario_activity_logs]
    by (simp add: missing_cell_access_logs_def scenario_activity_logs_def)
  then obtain s where
    s: "SecurityAnalyzer_init missing_cell_access_logs scenario_activity_logs = Inr s"
    using init_InrI by blast
  have "s = \<lparr> access_logs = missing_cell_access_logs,
            activity_logs = scenario_activity_logs,
            visited_users = {},
            visited_computers = {},
            event_log = [],
            affected_users = {},
            affected_computers = {},
            user_to_computers = spec_mapping (spec_user_to_computers scenario_activity_logs),
            computer_activities = spec_mapping (spec_computer_activities missing_cell_access_logs),
            computer_to_users = spec_mapping (spec_computer_to_users missing_cell_access_logs) \<rparr>"
    using construction_fails_on_missing_column_only
      [of missing_cell_access_logs scenario_activity_logs s] s by blast
  then have "computer_activities s (Str ''C1'') = Some [(Str ''U2'', NoneVal)]"
    "computer_to_users s (Str ''C1'') = Some [Str ''U2'']"
    "user_to_computers s (Str ''U1'') = Some [Str ''C1'']"
    "user_to_computers s (Str ''U2'') = None"
    by (simp_all add: spec_mapping_def spec_computer_activities_def spec_computer_to_users_def
        spec_user_to_computers_def missing_cell_access_logs_def scenario_activity_logs_def
        List.map_filter_simps)
  then show ?thesis using a b s by blast
qed

text \<open>
  C4 as stated fails: an access row whose \<open>activity_type\<close> cell is empty
  (\<^verbatim>\<open>None\<close>) has a required field missing, yet the constructor returns an analyzer
  and the row is indexed with the empty cell.
\<close>

theorem missing_cell_is_indexed:
  "\<not> isl (SecurityAnalyzer_init missing_cell_access_logs scenario_activity_logs) \<and>
   get (computer_activities
          (projr (SecurityAnalyzer_init missing_cell_access_logs scenario_activity_logs)))
       (Str ''C1'') = [(Str ''U2'', NoneVal)]"
  by (simp add: SecurityAnalyzer_init_def missing_cell_access_logs_def
      scenario_activity_logs_def append_at_def get_def)

text \<open>
  C5. On an analyzer that the constructor built, a seed with no entry in
  \<^verbatim>\<open>user_to_computers\<close> gives a result, not a failure: the log is the start line
  and the processing line of the seed, the affected and the visited users are the
  seed alone, and no computer is affected or visited.
\<close>

theorem seed_without_computers:
  assumes "SecurityAnalyzer_init access_logs_df activity_logs_df = Inr s"
    and "user_to_computers s seed = None"
  shows "\<exists>t. analyze_compromise s seed = Some t \<and>
     event_log t =
       [''Analysis started with suspicious user '' @ str seed,
        ''Processing user: '' @ str seed] \<and>
     affected_users t = {seed} \<and> affected_computers t = {} \<and>
     visited_users t = {seed} \<and> visited_computers t = {}"
proof -
  have "fresh_analyzer s" using init_Inr(1) [OF assms(1)] .
  then show ?thesis
    using analyze_no_computers [OF assms(2)] by (simp add: fresh_analyzer_def)
qed

text \<open>
  In the scenario the user \<open>U2\<close> has no entry in \<^verbatim>\<open>user_to_computers\<close>.
\<close>

theorem seed_without_computers_witness:
  "\<exists>s t. SecurityAnalyzer_init scenario_access_logs scenario_activity_logs = Inr s \<and>
     user_to_computers s (Str ''U2'') = None \<and>
     analyze_compromise s (Str ''U2'') = Some t \<and>
     event_log t = [''Analysis started with suspicious user U2'', ''Processing user: U2''] \<and>
     affected_users t = {Str ''U2''} \<and> affected_computers t = {}"
proof -
  obtain s where s: "SecurityAnalyzer_init scenario_access_logs scenario_activity_logs = Inr s"
    using scenario_init by blast
  have n: "user_to_computers s (Str ''U2'') = None"
    using s by (rule scenario_U2)
  show ?thesis
    using s n seed_without_computers [OF s n] by auto
qed

text \<open>
  C6. A computer that is already visited when the loop reaches it again adds
  nothing: the state, the queue and the log are as if it were not in the list. Hence
  a run on an analyzer that the constructor built logs one access line and one
  activities header for each affected computer, the activity lines of each affected
  computer once, and one \<open>affected user\<close> line for each affected user but the seed.
\<close>

theorem revisit_suppressed:
  assumes "SecurityAnalyzer_init access_logs_df activity_logs_df = Inr s"
    and "analyze_compromise s seed = Some t"
  shows "(c \<in> visited_computers s' \<longrightarrow>
            visit_computers u (c # cs) (s', q) = visit_computers u cs (s', q)) \<and>
     tally is_access_line t = card (affected_computers t) \<and>
     tally is_header_line t = card (affected_computers t) \<and>
     tally is_activity_line t =
       (\<Sum>k\<in>affected_computers t. length (get (computer_activities t) k)) \<and>
     tally is_affected_line t + 1 = card (affected_users t)"
proof -
  have f: "fresh_analyzer s" using init_Inr(1) [OF assms(1)] .
  have "counted (t, [])" "affected_users t = visited_users t"
    "affected_computers t = visited_computers t"
    using fresh_run [OF f assms(2)] by auto
  then show ?thesis
    using visit_skip [of c "(s', q)" u cs] by (simp add: counted_def)
qed

text \<open>
  The example of the claim: the activity records hold \<open>(U1, C1)\<close> and \<open>(U2, C1)\<close>,
  and the log has the block of \<open>C1\<close> once.
\<close>

theorem revisit_suppressed_witness:
  "\<exists>s t. SecurityAnalyzer_init scenario_access_logs revisit_activity_logs = Inr s \<and>
     analyze_compromise s (Str ''U1'') = Some t \<and>
     tally is_access_line t = card (affected_computers t) \<and>
     tally is_header_line t = card (affected_computers t) \<and>
     tally is_affected_line t + 1 = card (affected_users t) \<and>
     event_log t =
       [''Analysis started with suspicious user U1'',
        ''Processing user: U1'',
        ''User U1 accessed computer C1'',
        ''Activities on computer C1:'',
        ''  - login by user U2'',
        ''  - copy by user U3'',
        ''Computer C1 affected user U2'',
        ''Computer C1 affected user U3'',
        ''Processing user: U2'',
        ''Processing user: U3'']"
proof -
  obtain s t where s: "SecurityAnalyzer_init scenario_access_logs revisit_activity_logs = Inr s"
    and t: "analyze_compromise s (Str ''U1'') = Some t"
    and l: "event_log t =
       [''Analysis started with suspicious user U1'',
        ''Processing user: U1'',
        ''User U1 accessed computer C1'',
        ''Activities on computer C1:'',
        ''  - login by user U2'',
        ''  - copy by user U3'',
        ''Computer C1 affected user U2'',
        ''Computer C1 affected user U3'',
        ''Processing user: U2'',
        ''Processing user: U3'']"
    using revisit_eval by (auto split: sum.splits option.splits)
  show ?thesis
    using s t l revisit_suppressed [OF s t] by blast
qed

text \<open>
  C7. The four sets only grow, from every point of a run to every later one: over
  the marking of the seed, between two points of the loop over the users of a
  computer, between two points of the loop over the computers of a user, between
  two iterations of the \<^verbatim>\<open>while\<close> loop, and from the start of a call to its end. The
  sizes of the two affected sets do not decrease.
\<close>

theorem sets_only_grow:
  "grows s (fst (start_analysis s seed)) \<and>
   grows (fst (affect_users c us x)) (fst (affect_users c (us @ vs) x)) \<and>
   grows (fst (visit_computers u cs x)) (fst (visit_computers u (cs @ ds) x)) \<and>
   (m \<le> n \<longrightarrow> grows (fst ((process_user ^^ m) x)) (fst ((process_user ^^ n) x))) \<and>
   (analyze_compromise s seed = Some t \<longrightarrow> grows s t)"
  using grows_start [of s seed]
    grows_affect_users [of "affect_users c us x" c vs]
    grows_visit_computers [of "visit_computers u cs x" u ds]
    grows_iterate [of m n x] analyze_run(2) [of s seed t]
  by (simp add: affect_users_append visit_computers_append)

text \<open>
  The run of the scenario from \<open>U1\<close>, and its first two iterations.
\<close>

theorem sets_only_grow_witness:
  "\<exists>s t. SecurityAnalyzer_init scenario_access_logs scenario_activity_logs = Inr s \<and>
     analyze_compromise s (Str ''U1'') = Some t \<and> grows s t \<and>
     grows (fst ((process_user ^^ 1) (start_analysis s (Str ''U1''))))
           (fst ((process_user ^^ 2) (start_analysis s (Str ''U1''))))"
proof -
  obtain s t where s: "SecurityAnalyzer_init scenario_access_logs scenario_activity_logs = Inr s"
    and t: "analyze_compromise s (Str ''U1'') = Some t"
    using scenario_run by blast
  have "(1::nat) \<le> 2" by simp
  then show ?thesis
    using s t sets_only_grow [of s "Str ''U1''" _ _ "start_analysis s (Str ''U1'')" _ _ _ _ 1 2 t]
    by blast
qed

text \<open>
  C8. A second call on an analyzer that has completed a run starts from what the
  first run left: it returns, the log of the first run is a prefix of its log, the
  four sets of the first run are contained in its sets, and over both runs every
  visited computer has one access line and one activities header, so no computer of
  the first run is expanded again. When the second seed was visited in the first
  run, the second call adds its start line and its processing line and nothing else.
  When it was not, the log of both runs has one processing line for each visited
  user and one \<open>affected user\<close> line for each visited user but the two seeds: no
  user of the first run is affected, enqueued or processed again.
\<close>

theorem second_run_accumulates:
  assumes "SecurityAnalyzer_init access_logs_df activity_logs_df = Inr s"
    and "analyze_compromise s seed1 = Some t1"
  shows "\<exists>t2. analyze_compromise t1 seed2 = Some t2 \<and>
     prefix (event_log t1) (event_log t2) \<and> grows t1 t2 \<and>
     tally is_access_line t2 = card (visited_computers t2) \<and>
     tally is_header_line t2 = card (visited_computers t2) \<and>
     (seed2 \<in> visited_users t1 \<longrightarrow>
        t2 = t1\<lparr>event_log := event_log t1 @
               [''Analysis started with suspicious user '' @ str seed2,
                ''Processing user: '' @ str seed2]\<rparr>) \<and>
     (seed2 \<notin> visited_users t1 \<longrightarrow>
        tally is_processing_line t2 = card (visited_users t2) \<and>
        tally is_affected_line t2 + 2 = card (visited_users t2) \<and>
        affected_users t2 = visited_users t2)"
proof -
  have f: "fresh_analyzer s" and fin: "finite (dom (computer_to_users s))"
    using init_Inr [OF assms(1)] by auto
  have fr: "frame s t1" using assms(2) by (rule analyze_run)
  have "finite (dom (computer_to_users t1))"
    using fin frame_index [OF fr] by simp
  then obtain t2 where t2: "analyze_compromise t1 seed2 = Some t2"
    using analyze_terminates by blast
  have p: "prefix (event_log t1) (event_log t2)" and g: "grows t1 t2"
    using analyze_run [OF t2] by auto
  have "counted_computers t1"
    using counted_computers_fresh [OF f] assms(2) by (rule counted_computers_run)
  then have "counted_computers t2"
    using t2 by (rule counted_computers_run)
  then have c: "tally is_access_line t2 = card (visited_computers t2)"
    "tally is_header_line t2 = card (visited_computers t2)"
    by (simp_all add: counted_computers_def)
  have av1: "affected_users t1 = visited_users t1"
    using fresh_run(2) [OF f assms(2)] .
  have again: "t2 = t1\<lparr>event_log := event_log t1 @
      [''Analysis started with suspicious user '' @ str seed2,
       ''Processing user: '' @ str seed2]\<rparr>" if v: "seed2 \<in> visited_users t1"
  proof -
    have "settled (t1, [])"
      using fresh_settled [OF f] assms(2) by (rule settled_run)
    then have "set (get (user_to_computers t1) seed2) \<subseteq> visited_computers t1"
      using v by (simp add: settled_def)
    then have "analyze_compromise t1 seed2 =
        Some (t1\<lparr> visited_users := insert seed2 (visited_users t1),
                  affected_users := insert seed2 (affected_users t1),
                  event_log := event_log t1 @
                    [''Analysis started with suspicious user '' @ str seed2,
                     ''Processing user: '' @ str seed2] \<rparr>)"
      by (rule analyze_all_visited)
    moreover have "seed2 \<in> affected_users t1"
      using av1 v by simp
    ultimately show ?thesis
      using t2 v by (simp add: insert_absorb)
  qed
  have new: "tally is_processing_line t2 = card (visited_users t2) \<and>
      tally is_affected_line t2 + 2 = card (visited_users t2) \<and>
      affected_users t2 = visited_users t2" if n: "seed2 \<notin> visited_users t1"
  proof -
    have "counted_users 1 (t1, [])"
      using fresh_run(4) [OF f assms(2)] by (rule counted_counted_users)
    then have "counted_users (Suc 1) (t2, [])"
      using n t2 by (rule counted_users_run)
    then have k: "tally is_processing_line t2 = card (visited_users t2)"
      "tally is_affected_line t2 + 2 = card (visited_users t2)"
      by (simp_all add: counted_users_def)
    have r: "while_option queue_nonempty process_user (start_analysis t1 seed2) = Some (t2, [])"
      using t2 by (rule analyze_SomeD)
    obtain nu nc where e: "expands (fst (start_analysis t1 seed2)) nu nc t2"
      using loop_expands [OF r] by auto
    have "affected_users t2 = visited_users t2"
      using e av1 unfolding expands_def start_analysis_def by auto
    then show ?thesis using k by simp
  qed
  show ?thesis using t2 p g c again new by blast
qed

text \<open>
  In the scenario, a second call with seed \<open>U2\<close>, visited by the run from \<open>U1\<close>.
  In the tables with access records \<open>(C1, U2)\<close>, \<open>(C2, U2)\<close>, \<open>(C2, U5)\<close> and
  activity records \<open>(U1, C1)\<close>, \<open>(U4, C2)\<close>, a second call with the new seed \<open>U4\<close>
  reaches \<open>U2\<close> again through \<open>C2\<close> and neither marks nor processes it.
\<close>

theorem second_run_accumulates_witness:
  "(\<exists>s t1 t2. SecurityAnalyzer_init scenario_access_logs scenario_activity_logs = Inr s \<and>
      analyze_compromise s (Str ''U1'') = Some t1 \<and>
      Str ''U2'' \<in> visited_users t1 \<and>
      analyze_compromise t1 (Str ''U2'') = Some t2 \<and>
      prefix (event_log t1) (event_log t2) \<and> grows t1 t2 \<and>
      t2 = t1\<lparr>event_log := event_log t1 @
             [''Analysis started with suspicious user U2'', ''Processing user: U2'']\<rparr>) \<and>
   (\<exists>s t1 t2. SecurityAnalyzer_init rerun_access_logs rerun_activity_logs = Inr s \<and>
      analyze_compromise s (Str ''U1'') = Some t1 \<and>
      Str ''U4'' \<notin> visited_users t1 \<and>
      analyze_compromise t1 (Str ''U4'') = Some t2 \<and>
      tally is_processing_line t2 = card (visited_users t2) \<and>
      tally is_affected_line t2 + 2 = card (visited_users t2) \<and>
      event_log t2 = event_log t1 @
        [''Analysis started with suspicious user U4'',
         ''Processing user: U4'',
         ''User U4 accessed computer C2'',
         ''Activities on computer C2:'',
         ''  - copy by user U2'',
         ''  - login by user U5'',
         ''Computer C2 affected user U5'',
         ''Processing user: U5''])"
proof -
  obtain s t1 where s: "SecurityAnalyzer_init scenario_access_logs scenario_activity_logs = Inr s"
    and t1: "analyze_compromise s (Str ''U1'') = Some t1"
    and a: "affected_users t1 = {Str ''U1'', Str ''U2'', Str ''U3''}"
    using scenario_eval by (auto split: sum.splits option.splits)
  have f: "fresh_analyzer s" using init_Inr(1) [OF s] .
  have "Str ''U2'' \<in> affected_users t1" using a by simp
  then have v: "Str ''U2'' \<in> visited_users t1"
    using fresh_run(2) [OF f t1] by simp
  have one: "\<exists>s t1 t2. SecurityAnalyzer_init scenario_access_logs scenario_activity_logs = Inr s \<and>
      analyze_compromise s (Str ''U1'') = Some t1 \<and>
      Str ''U2'' \<in> visited_users t1 \<and>
      analyze_compromise t1 (Str ''U2'') = Some t2 \<and>
      prefix (event_log t1) (event_log t2) \<and> grows t1 t2 \<and>
      t2 = t1\<lparr>event_log := event_log t1 @
             [''Analysis started with suspicious user U2'', ''Processing user: U2'']\<rparr>"
    using s t1 v second_run_accumulates [OF s t1, of "Str ''U2''"] by auto
  obtain r u1 u2 where r: "SecurityAnalyzer_init rerun_access_logs rerun_activity_logs = Inr r"
    and u1: "analyze_compromise r (Str ''U1'') = Some u1"
    and n: "Str ''U4'' \<notin> visited_users u1"
    and u2: "analyze_compromise u1 (Str ''U4'') = Some u2"
    and l: "event_log u2 = event_log u1 @
        [''Analysis started with suspicious user U4'',
         ''Processing user: U4'',
         ''User U4 accessed computer C2'',
         ''Activities on computer C2:'',
         ''  - copy by user U2'',
         ''  - login by user U5'',
         ''Computer C2 affected user U5'',
         ''Processing user: U5'']"
    using rerun_eval by (auto split: sum.splits option.splits)
  have "tally is_processing_line u2 = card (visited_users u2) \<and>
      tally is_affected_line u2 + 2 = card (visited_users u2)"
    using second_run_accumulates [OF r u1, of "Str ''U4''"] u2 n by auto
  then have two: "\<exists>s t1 t2. SecurityAnalyzer_init rerun_access_logs rerun_activity_logs = Inr s \<and>
      analyze_compromise s (Str ''U1'') = Some t1 \<and>
      Str ''U4'' \<notin> visited_users t1 \<and>
      analyze_compromise t1 (Str ''U4'') = Some t2 \<and>
      tally is_processing_line t2 = card (visited_users t2) \<and>
      tally is_affected_line t2 + 2 = card (visited_users t2) \<and>
      event_log t2 = event_log t1 @
        [''Analysis started with suspicious user U4'',
         ''Processing user: U4'',
         ''User U4 accessed computer C2'',
         ''Activities on computer C2:'',
         ''  - copy by user U2'',
         ''  - login by user U5'',
         ''Computer C2 affected user U5'',
         ''Processing user: U5'']"
    using r u1 n u2 l by blast
  show ?thesis using one two by blast
qed

text \<open>
  C9. A call that returns leaves the three dictionaries as they were, and the
  analyzer it leaves differs from the one it started on in the four sets and the
  event log at most.
\<close>

theorem index_unchanged:
  assumes "analyze_compromise s seed = Some t"
  shows "user_to_computers t = user_to_computers s \<and>
     computer_to_users t = computer_to_users s \<and>
     computer_activities t = computer_activities s \<and>
     t = s\<lparr> visited_users := visited_users t,
            visited_computers := visited_computers t,
            event_log := event_log t,
            affected_users := affected_users t,
            affected_computers := affected_computers t \<rparr>"
proof -
  have fr: "frame s t" using assms by (rule analyze_run)
  then show ?thesis using frame_index [OF fr] by (simp add: frame_def)
qed

text \<open>
  The run of the scenario from \<open>U1\<close>.
\<close>

theorem index_unchanged_witness:
  "\<exists>s t. SecurityAnalyzer_init scenario_access_logs scenario_activity_logs = Inr s \<and>
     analyze_compromise s (Str ''U1'') = Some t \<and>
     user_to_computers t = user_to_computers s \<and>
     computer_to_users t = computer_to_users s \<and>
     computer_activities t = computer_activities s"
proof -
  obtain s t where s: "SecurityAnalyzer_init scenario_access_logs scenario_activity_logs = Inr s"
    and t: "analyze_compromise s (Str ''U1'') = Some t"
    using scenario_run by blast
  show ?thesis
    using s t index_unchanged [OF t] by blast
qed

text \<open>
  C10. On an analyzer that the constructor built, every activity line of the final
  log was written for a pair (user, activity type) that \<^verbatim>\<open>computer_activities\<close>
  lists for an affected computer, and the user of every such pair is affected when
  the call returns. The user named by a line is the user of the pair the line was
  written for.
\<close>

theorem activity_users_are_affected:
  assumes "SecurityAnalyzer_init access_logs_df activity_logs_df = Inr s"
    and "analyze_compromise s seed = Some t"
  shows "(l \<in> set (event_log t) \<and> is_activity_line l \<longrightarrow>
            (\<exists>c user activity. c \<in> affected_computers t \<and>
               (user, activity) \<in> set (get (computer_activities t) c) \<and>
               l = activity_line (user, activity))) \<and>
         (c \<in> affected_computers t \<and>
          (user, activity) \<in> set (get (computer_activities t) c) \<longrightarrow>
            user \<in> affected_users t)"
proof -
  have f: "fresh_analyzer s" using init_Inr(1) [OF assms(1)] .
  have fr: "frame s t" using assms(2) by (rule analyze_run)
  have au: "affected_users t = visited_users t"
    and ac: "affected_computers t = visited_computers t"
    using fresh_run [OF f assms(2)] by auto
  have "logged t"
    using logged_fresh [OF f] assms(2) by (rule logged_run)
  then have one: "\<exists>c user activity. c \<in> affected_computers t \<and>
      (user, activity) \<in> set (get (computer_activities t) c) \<and>
      l = activity_line (user, activity)"
    if "l \<in> set (event_log t)" and "is_activity_line l"
    using that ac unfolding logged_def by fastforce
  have st: "settled (t, [])"
    using fresh_settled [OF f] assms(2) by (rule settled_run)
  have two: "user \<in> affected_users t"
    if c: "c \<in> affected_computers t"
      and p: "(user, activity) \<in> set (get (computer_activities t) c)"
  proof -
    have "map fst (get (computer_activities s) c) = get (computer_to_users s) c"
      using init_Inr(3) [OF assms(1)] .
    then have "map fst (get (computer_activities t) c) = get (computer_to_users t) c"
      using frame_index [OF fr] by simp
    moreover have "user \<in> set (map fst (get (computer_activities t) c))"
      using p by force
    ultimately have "user \<in> set (get (computer_to_users t) c)" by simp
    moreover have "set (get (computer_to_users t) c) \<subseteq> visited_users t"
      using st c ac by (simp add: settled_def)
    ultimately show ?thesis using au by auto
  qed
  show ?thesis using one two by blast
qed

text \<open>
  The line of the login by \<open>U2\<close> in the scenario.
\<close>

theorem activity_users_are_affected_witness:
  "\<exists>s t. SecurityAnalyzer_init scenario_access_logs scenario_activity_logs = Inr s \<and>
     analyze_compromise s (Str ''U1'') = Some t \<and>
     ''  - login by user U2'' \<in> set (event_log t) \<and>
     is_activity_line ''  - login by user U2'' \<and>
     (\<exists>c user activity. c \<in> affected_computers t \<and>
        (user, activity) \<in> set (get (computer_activities t) c) \<and>
        ''  - login by user U2'' = activity_line (user, activity) \<and>
        user \<in> affected_users t)"
proof -
  obtain s t where s: "SecurityAnalyzer_init scenario_access_logs scenario_activity_logs = Inr s"
    and t: "analyze_compromise s (Str ''U1'') = Some t"
    and l: "''  - login by user U2'' \<in> set (event_log t)"
    using scenario_eval by (auto split: sum.splits option.splits)
  have k: "is_activity_line ''  - login by user U2''"
    by (simp add: is_activity_line_def)
  obtain c user activity where "c \<in> affected_computers t"
    "(user, activity) \<in> set (get (computer_activities t) c)"
    "''  - login by user U2'' = activity_line (user, activity)"
    using activity_users_are_affected [OF s t, of "''  - login by user U2''"] l k by blast
  moreover from this have "user \<in> affected_users t"
    using activity_users_are_affected [OF s t, of _ c user activity] by blast
  ultimately show ?thesis using s t l k by blast
qed


end
